theory Spec2Isabelle
  imports Main
begin

section \<open>Machine integers\<close>

text \<open>
  The C integers are \<^verbatim>\<open>int_fast64_t\<close>, 64 bits wide on the platforms the programs are
  built for, and are modelled as \<^typ>\<open>int\<close>. The quantities computed from the sequence
  length \<open>n\<close> (the products \<^verbatim>\<open>n*(n+1)\<close> and what is compared with them) leave the range
  for inputs the programs accept, so their wrap-around is written out: \<open>wrap64\<close> is the
  value a 64-bit two's complement register holds, \<open>truncDiv\<close> is C's division, which
  truncates towards zero. The other sums and differences are between primes, offsets
  and indices; they are not wrapped, and the theorems about runs on arbitrary inputs carry
  the hypothesis that keeps them (and the primes the run fetches, which the library hands
  over as \<^verbatim>\<open>uint64_t\<close>) below \<open>2 ^ 63\<close>. Memory is not bounded in the model: an
  allocation of a size that is not negative succeeds, so the sizes are not wrapped either.
\<close>

definition wrap64 :: "int \<Rightarrow> int" where
  "wrap64 x = (x + 2 ^ 63) mod 2 ^ 64 - 2 ^ 63"

definition truncDiv :: "int \<Rightarrow> int \<Rightarrow> int" where
  "truncDiv a b = (if (a < 0) = (b < 0) then \<bar>a\<bar> div \<bar>b\<bar> else - (\<bar>a\<bar> div \<bar>b\<bar>))"

lemma wrap64_id: "- (2 ^ 63) \<le> x \<Longrightarrow> x < 2 ^ 63 \<Longrightarrow> wrap64 x = x"
  by (simp add: wrap64_def)

lemma wrap64_less: "wrap64 x < 2 ^ 63"
proof -
  have "(x + 2 ^ 63) mod 2 ^ 64 < (2 ^ 64 :: int)" by (rule pos_mod_bound) simp
  then show ?thesis by (simp add: wrap64_def)
qed

lemma truncDiv_nonneg: "0 \<le> a \<Longrightarrow> 0 < b \<Longrightarrow> truncDiv a b = a div b"
  by (simp add: truncDiv_def)

section \<open>The prime source\<close>

text \<open>
  The three programs draw their primes from the primesieve library, which is not part of
  the repository. Only two of its operations are used: positioning the iterator
  (\<^verbatim>\<open>primesieve_jump_to\<close>) and asking for the next prime
  (\<^verbatim>\<open>primesieve_next_prime\<close>).
\<close>

text \<open>Modelled from the spec: primality, decided by trial division (the Prime Source is
  the external primesieve library; the spec only asks that it supplies the primes).\<close>

function noDivisorFrom :: "int \<Rightarrow> int \<Rightarrow> bool" where
  "noDivisorFrom d p =
     (if p \<le> d then True
      else if p mod d = 0 then False
      else noDivisorFrom (d + 1) p)"
  by pat_completeness auto
termination
  by (relation "measure (\<lambda>(d, p). nat (p - d))") auto

declare noDivisorFrom.simps [simp del]

definition is_prime :: "int \<Rightarrow> bool" where
  "is_prime p = (2 \<le> p \<and> noDivisorFrom 2 p)"

lemma noDivisorFrom_iff:
  "1 \<le> d \<Longrightarrow> noDivisorFrom d p \<longleftrightarrow> (\<forall>e. d \<le> e \<and> e < p \<longrightarrow> \<not> e dvd p)"
proof (induction d p rule: noDivisorFrom.induct)
  case (1 d p)
  show ?case
  proof (cases "p \<le> d")
    case True
    then show ?thesis by (auto simp: noDivisorFrom.simps [of d p])
  next
    case False
    show ?thesis
    proof (cases "p mod d = 0")
      case True
      with False show ?thesis
        by (auto simp: noDivisorFrom.simps [of d p] dvd_eq_mod_eq_0 intro!: exI [of _ d])
    next
      case nd: False
      have "noDivisorFrom d p = noDivisorFrom (d + 1) p"
        using False nd by (simp add: noDivisorFrom.simps [of d p])
      also have "\<dots> \<longleftrightarrow> (\<forall>e. d + 1 \<le> e \<and> e < p \<longrightarrow> \<not> e dvd p)"
        using "1.IH" [OF False nd] "1.prems" by simp
      also have "\<dots> \<longleftrightarrow> (\<forall>e. d \<le> e \<and> e < p \<longrightarrow> \<not> e dvd p)"
      proof -
        have "\<not> d dvd p" using nd by (simp add: dvd_eq_mod_eq_0)
        then show ?thesis
          by (metis add.commute le_less not_less zless_imp_add1_zle add1_zle_eq)
      qed
      finally show ?thesis .
    qed
  qed
qed

lemma is_prime_iff:
  "is_prime p \<longleftrightarrow> 2 \<le> p \<and> (\<forall>e. 2 \<le> e \<and> e < p \<longrightarrow> \<not> e dvd p)"
  by (simp add: is_prime_def noDivisorFrom_iff)

lemma is_prime_ge_2: "is_prime p \<Longrightarrow> 2 \<le> p"
  by (simp add: is_prime_def)

lemma prime_divisor_exists: "2 \<le> n \<Longrightarrow> \<exists>p. is_prime p \<and> p dvd n"
proof (induction "nat n" arbitrary: n rule: less_induct)
  case less
  show ?case
  proof (cases "is_prime n")
    case True
    then show ?thesis by auto
  next
    case False
    with less.prems obtain e where e: "2 \<le> e" "e < n" "e dvd n"
      by (auto simp: is_prime_iff)
    then have "nat e < nat n" by simp
    from less.hyps [OF this e(1)] obtain p where "is_prime p" "p dvd e" by blast
    with e(3) show ?thesis by (meson dvd_trans)
  qed
qed

text \<open>Euclid: above every bound there is a prime, so the iterator never runs dry.\<close>

lemma prime_above: "\<exists>p. is_prime p \<and> m \<le> p"
proof -
  define N :: int where "N = fact (nat m) + 1"
  have "2 \<le> N" unfolding N_def
    using fact_ge_1 [of "nat m", where ?'a = int] by simp
  then obtain p where p: "is_prime p" "p dvd N"
    using prime_divisor_exists by blast
  have p2: "2 \<le> p" using p(1) by (simp add: is_prime_iff)
  have "m \<le> p"
  proof (rule ccontr)
    assume "\<not> m \<le> p"
    then have "nat p \<le> nat m" "1 \<le> nat p" using p2 by auto
    then have "nat p dvd fact (nat m)" by (simp add: dvd_fact)
    then have "int (nat p) dvd int (fact (nat m))" by (simp only: int_dvd_int_iff)
    then have "p dvd fact (nat m)" using p2 by simp
    with p(2) have "p dvd 1" unfolding N_def
      by (simp add: dvd_add_right_iff)
    with p2 show False by simp
  qed
  with p(1) show ?thesis by blast
qed

text \<open>Modelled from the spec: the first prime at or after a position (what
  \<^verbatim>\<open>primesieve_next_prime\<close> of the external library returns after a seek).\<close>

function next_prime :: "int \<Rightarrow> int" where
  "next_prime x = (if is_prime x then x else next_prime (x + 1))"
  by pat_completeness auto
termination
proof (relation "measure (\<lambda>x. LEAST k. is_prime (x + int k))")
  show "wf (measure (\<lambda>x. LEAST k. is_prime (x + int k)))" by simp
next
  fix x :: int
  assume np: "\<not> is_prime x"
  obtain p where p: "is_prime p" "x \<le> p" using prime_above by blast
  then have ex: "is_prime (x + int (nat (p - x)))" by simp
  define k where "k = (LEAST k. is_prime (x + int k))"
  have k: "is_prime (x + int k)" unfolding k_def using ex by (rule LeastI)
  have "k \<noteq> 0" using k np by (cases k) auto
  then obtain j where j: "k = Suc j" by (cases k) auto
  have "is_prime (x + 1 + int j)" using k j by (simp add: ac_simps)
  then have "(LEAST k. is_prime (x + 1 + int k)) \<le> j" by (rule Least_le)
  then show "(x + 1, x) \<in> measure (\<lambda>x. LEAST k. is_prime (x + int k))"
    using j k_def by simp
qed

declare next_prime.simps [simp del]

lemma next_prime_prime: "is_prime (next_prime x)"
  by (induction x rule: next_prime.induct) (simp add: next_prime.simps)

lemma next_prime_ge: "x \<le> next_prime x"
  by (induction x rule: next_prime.induct) (subst next_prime.simps, auto)

lemma next_prime_least: "is_prime q \<Longrightarrow> x \<le> q \<Longrightarrow> next_prime x \<le> q"
proof (induction x rule: next_prime.induct)
  case (1 x)
  show ?case
  proof (cases "is_prime x")
    case True
    with "1.prems" show ?thesis by (subst next_prime.simps) simp
  next
    case False
    with "1.prems" have "x \<noteq> q" by auto
    with "1.prems" have "x + 1 \<le> q" by simp
    with "1.IH" [OF False "1.prems"(1)] False show ?thesis by (subst next_prime.simps) simp
  qed
qed

lemma no_prime_before_next: "x \<le> q \<Longrightarrow> q < next_prime x \<Longrightarrow> \<not> is_prime q"
  using next_prime_least [of q x] by auto

text \<open>Modelled from the spec: the iterator (the global \<^verbatim>\<open>primesieve_iterator it\<close>) is the
  position the next prime is looked for from. \<^verbatim>\<open>primesieve_jump_to (&it, start, hint)\<close>
  sets it to \<open>start\<close>; \<^verbatim>\<open>primesieve_next_prime (&it)\<close> returns the first prime at or
  after the position and moves the position just past it.\<close>

type_synonym primesieve_iterator = int

definition primesieve_jump_to :: "int \<Rightarrow> primesieve_iterator" where
  "primesieve_jump_to start = start"

definition primesieve_next_prime :: "primesieve_iterator \<Rightarrow> int \<times> primesieve_iterator" where
  "primesieve_next_prime it = (let p = next_prime it in (p, p + 1))"

section \<open>Arrays of flags\<close>

text \<open>
  \<^verbatim>\<open>numberArray\<close> and \<^verbatim>\<open>primeArray\<close> are \<^verbatim>\<open>char\<close> arrays holding 0 or 1, modelled
  as lists of booleans. An access outside the allocated block is undefined in C; the model
  makes it the error \<open>OutOfBounds\<close>. \<open>AllocationFailed\<close> is the \<^verbatim>\<open>exit(1)\<close> after a
  \<^verbatim>\<open>malloc\<close> that returns \<^verbatim>\<open>NULL\<close>.
\<close>

datatype error = OutOfBounds | AllocationFailed

definition readCell :: "bool list \<Rightarrow> int \<Rightarrow> error + bool" where
  "readCell a i = (if 0 \<le> i \<and> i < int (length a) then Inr (a ! nat i) else Inl OutOfBounds)"

definition writeCell :: "bool list \<Rightarrow> int \<Rightarrow> bool \<Rightarrow> error + bool list" where
  "writeCell a i v =
     (if 0 \<le> i \<and> i < int (length a) then Inr (a[nat i := v]) else Inl OutOfBounds)"

section \<open>The sequence\<close>

text \<open>The \<open>i\<close>-th triangular number: term \<open>i\<close> of the sequence started at \<open>A\<close> is
  \<open>A + T i\<close>. A start value is valid for length \<open>n\<close> when none of the terms
  \<open>0 .. n - 1\<close> is prime.\<close>

definition T :: "int \<Rightarrow> int" where
  "T i = i * (i + 1) div 2"

function noPrimeTermFrom :: "int \<Rightarrow> int \<Rightarrow> int \<Rightarrow> bool" where
  "noPrimeTermFrom A i n =
     (if i < n then \<not> is_prime (A + T i) \<and> noPrimeTermFrom A (i + 1) n else True)"
  by pat_completeness auto
termination
  by (relation "measure (\<lambda>(A, i, n). nat (n - i))") auto

declare noPrimeTermFrom.simps [simp del]

definition validStart :: "int \<Rightarrow> int \<Rightarrow> bool" where
  "validStart A n = noPrimeTermFrom A 0 n"

section \<open>Program 1: crossing out backwards from each prime\<close>

text \<open>\<^verbatim>\<open>initArray\<close>: every cell is set to 1 (alive). The C parameter \<^verbatim>\<open>size\<close> is
  written \<open>sz\<close> throughout, \<open>size\<close> being a constant of HOL.\<close>

definition initArray :: "int \<Rightarrow> bool list" where
  "initArray sz = replicate (nat sz) True"

text \<open>
  The inner loop of \<^verbatim>\<open>processArray\<close>:
  \<^verbatim>\<open>while (i <= n) { offsetPrime -= (i++); if (offsetPrime < 0) break;
     if (offsetPrime >= size) continue; numberArray[offsetPrime] = 0; }\<close>
  Here \<open>n\<close> is the already decremented \<^verbatim>\<open>n\<close> of the C function.
\<close>

function ruleOut :: "int \<Rightarrow> int \<Rightarrow> int \<Rightarrow> int \<Rightarrow> bool list \<Rightarrow> error + bool list" where
  "ruleOut i n offsetPrime sz numberArray =
     (if i \<le> n then
        (let offsetPrime' = offsetPrime - i; i' = i + 1 in
         if offsetPrime' < 0 then Inr numberArray
         else if offsetPrime' \<ge> sz then ruleOut i' n offsetPrime' sz numberArray
         else (case writeCell numberArray offsetPrime' False of
                 Inl e \<Rightarrow> Inl e
               | Inr a \<Rightarrow> ruleOut i' n offsetPrime' sz a))
      else Inr numberArray)"
  by pat_completeness auto
termination
  by (relation "measure (\<lambda>(i, n, offsetPrime, sz, numberArray). nat (n + 1 - i))") auto

declare ruleOut.simps [simp del]

text \<open>
  \<^verbatim>\<open>do { possibleStartIndex++; }
   while ((possibleStartIndex < size) && !numberArray[possibleStartIndex]);\<close>
\<close>

function nextAlive :: "int \<Rightarrow> int \<Rightarrow> bool list \<Rightarrow> error + int" where
  "nextAlive possibleStartIndex sz numberArray =
     (let psi = possibleStartIndex + 1 in
      if psi < sz then
        (case readCell numberArray psi of
           Inl e \<Rightarrow> Inl e
         | Inr alive \<Rightarrow> if \<not> alive then nextAlive psi sz numberArray else Inr psi)
      else Inr psi)"
  by pat_completeness auto
termination
  by (relation "measure (\<lambda>(psi, sz, numberArray). nat (sz - psi))") auto

declare nextAlive.simps [simp del]

lemma ruleOut_length:
  "ruleOut i n offsetPrime sz a = Inr a' \<Longrightarrow> length a' = length a"
proof (induction i n offsetPrime sz a rule: ruleOut.induct)
  case (1 i n offsetPrime sz numberArray)
  show ?case
  proof (cases "i \<le> n")
    case False
    with "1.prems" show ?thesis by (simp add: ruleOut.simps [of i n])
  next
    case True
    note le = this
    show ?thesis
    proof (cases "offsetPrime - i < 0")
      case True
      with le "1.prems" show ?thesis by (simp add: ruleOut.simps [of i n])
    next
      case nneg: False
      show ?thesis
      proof (cases "offsetPrime - i \<ge> sz")
        case True
        with le nneg "1.prems" "1.IH"(1) [OF le refl refl nneg True] show ?thesis
          by (simp add: ruleOut.simps [of i n])
      next
        case False
        with le nneg "1.prems" obtain b where
          b: "writeCell numberArray (offsetPrime - i) False = Inr b"
            "ruleOut (i + 1) n (offsetPrime - i) sz b = Inr a'"
          by (auto simp: ruleOut.simps [of i n] Let_def split: sum.splits)
        from b(1) have "length b = length numberArray"
          by (auto simp: writeCell_def split: if_splits)
        with "1.IH"(2) [OF le refl refl nneg False b(1) b(2)] show ?thesis by simp
      qed
    qed
  qed
qed

lemma nextAlive_bound:
  "nextAlive psi sz a = Inr r \<Longrightarrow> psi < r \<and> r \<le> max (psi + 1) sz"
proof (induction psi sz a rule: nextAlive.induct)
  case (1 psi sz a)
  show ?case
  proof (cases "psi + 1 < sz")
    case False
    with "1.prems" show ?thesis by (auto simp: nextAlive.simps [of psi])
  next
    case True
    with "1.prems" obtain alive where al: "readCell a (psi + 1) = Inr alive"
      by (auto simp: nextAlive.simps [of psi] Let_def split: sum.splits)
    show ?thesis
    proof (cases alive)
      case True
      with \<open>psi + 1 < sz\<close> al "1.prems" show ?thesis
        by (auto simp: nextAlive.simps [of psi])
    next
      case False
      with \<open>psi + 1 < sz\<close> al "1.prems" have "nextAlive (psi + 1) sz a = Inr r"
        by (auto simp: nextAlive.simps [of psi])
      from "1.IH" [OF refl \<open>psi + 1 < sz\<close> al _ this] False \<open>psi + 1 < sz\<close>
      show ?thesis by auto
    qed
  qed
qed

text \<open>
  The outer \<^verbatim>\<open>do ... while\<close> loop of \<^verbatim>\<open>processArray\<close>: fetch the next prime, cross out
  backwards from it, move \<^verbatim>\<open>possibleStartIndex\<close> to the next alive cell when its own cell
  was crossed out (\<open>-1\<close> when it reaches \<^verbatim>\<open>size\<close>), and go on while
  \<^verbatim>\<open>possibleStartIndex + upperBoundDiff >= initialOffsetPrime\<close>. The sum of that test
  is a 64-bit sum: \<^verbatim>\<open>upperBoundDiff\<close> comes from a product that may have wrapped.
\<close>

function processLoop ::
  "int \<Rightarrow> int \<Rightarrow> int \<Rightarrow> int \<Rightarrow> primesieve_iterator \<Rightarrow> bool list \<Rightarrow> int \<Rightarrow> error + int" where
  "processLoop offset n upperBoundDiff sz it numberArray possibleStartIndex =
     (let (lastPrime, it') = primesieve_next_prime it;
          initialOffsetPrime = lastPrime - offset in
      case ruleOut 0 n initialOffsetPrime sz numberArray of
        Inl e \<Rightarrow> Inl e
      | Inr a \<Rightarrow>
         (case readCell a possibleStartIndex of
            Inl e \<Rightarrow> Inl e
          | Inr alive \<Rightarrow>
              if \<not> alive then
                (case nextAlive possibleStartIndex sz a of
                   Inl e \<Rightarrow> Inl e
                 | Inr psi \<Rightarrow>
                     if psi = sz then Inr (- 1)
                     else if wrap64 (psi + upperBoundDiff) \<ge> initialOffsetPrime
                     then processLoop offset n upperBoundDiff sz it' a psi
                     else Inr psi)
              else if wrap64 (possibleStartIndex + upperBoundDiff) \<ge> initialOffsetPrime
              then processLoop offset n upperBoundDiff sz it' a possibleStartIndex
              else Inr possibleStartIndex))"
  by pat_completeness auto
termination
proof (relation "measure (\<lambda>(offset, n, upperBoundDiff, sz, it, numberArray, possibleStartIndex).
          nat (offset + 2 ^ 63 - it))",
       goal_cases)
  case 1
  show ?case by simp
next
  case (2 offset n upperBoundDiff sz it numberArray possibleStartIndex x lastPrime it'
      initialOffsetPrime a alive psi)
  from 2(1,2) have lp: "lastPrime = next_prime it" "it' = lastPrime + 1"
    by (auto simp: primesieve_next_prime_def Let_def)
  have ge: "it \<le> lastPrime" using lp next_prime_ge by simp
  from 2(3,9) wrap64_less [of "psi + upperBoundDiff"] have "lastPrime - offset < 2 ^ 63"
    by simp
  with lp ge show ?case by auto
next
  case (3 offset n upperBoundDiff sz it numberArray possibleStartIndex x lastPrime it'
      initialOffsetPrime a alive)
  from 3(1,2) have lp: "lastPrime = next_prime it" "it' = lastPrime + 1"
    by (auto simp: primesieve_next_prime_def Let_def)
  have ge: "it \<le> lastPrime" using lp next_prime_ge by simp
  from 3(3,7) wrap64_less [of "possibleStartIndex + upperBoundDiff"]
  have "lastPrime - offset < 2 ^ 63" by simp
  with lp ge show ?case by auto
qed

declare processLoop.simps [simp del]

text \<open>
  \<^verbatim>\<open>processArray\<close>: \<^verbatim>\<open>n--\<close>, \<^verbatim>\<open>upperBoundDiff = n*(n+1)/2\<close> in 64-bit arithmetic, the
  seek to \<^verbatim>\<open>offset + startValueIndex\<close>, then the loop. The array is the global
  \<^verbatim>\<open>numberArray\<close>, passed in. (The third argument of \<^verbatim>\<open>primesieve_jump_to\<close>,
  \<^verbatim>\<open>offset + size + 2*upperBoundDiff\<close>, is a hint for the library's buffer and has no
  effect on the primes returned.)
\<close>

definition processArray :: "int \<Rightarrow> int \<Rightarrow> int \<Rightarrow> int \<Rightarrow> bool list \<Rightarrow> error + int" where
  "processArray offset startValueIndex n sz numberArray =
     (let n' = wrap64 (n - 1);
          upperBoundDiff = truncDiv (wrap64 (n' * wrap64 (n' + 1))) 2;
          it = primesieve_jump_to (offset + startValueIndex)
      in processLoop offset n' upperBoundDiff sz it numberArray startValueIndex)"

text \<open>
  \<^verbatim>\<open>look4StartValue\<close>: \<^verbatim>\<open>while (1)\<close> around \<^verbatim>\<open>initArray\<close> and \<^verbatim>\<open>processArray\<close>, moving
  \<^verbatim>\<open>startValue\<close> on by \<^verbatim>\<open>size\<close> when the block is cleared. The loop has no bound of its
  own: not returning is the value \<open>None\<close>.
\<close>

partial_function (option) look4StartValue :: "int \<Rightarrow> int \<Rightarrow> int \<Rightarrow> (error + int) option" where
  "look4StartValue startValue n sz =
     (case processArray startValue 0 n sz (initArray sz) of
        Inl e \<Rightarrow> Some (Inl e)
      | Inr correctStartIndex \<Rightarrow>
          if correctStartIndex \<ge> 0 then Some (Inr (correctStartIndex + startValue))
          else look4StartValue (startValue + sz) n sz)"

declare look4StartValue.simps [code]

section \<open>The verifier\<close>

text \<open>
  \<^verbatim>\<open>CheckSequence\<close> is the same function in the three programs. Its first inner loop,
  \<^verbatim>\<open>while ((nextPrime = primesieve_next_prime(&it)) < initialValue) ;\<close>
\<close>

function skipPrimes :: "primesieve_iterator \<Rightarrow> int \<Rightarrow> int \<times> primesieve_iterator" where
  "skipPrimes it initialValue =
     (let (nextPrime, it') = primesieve_next_prime it in
      if nextPrime < initialValue then skipPrimes it' initialValue else (nextPrime, it'))"
  by pat_completeness auto
termination
proof (relation "measure (\<lambda>(it, initialValue). nat (initialValue - it))", goal_cases)
  case 1
  show ?case by simp
next
  case (2 it initialValue x nextPrime it')
  then have "nextPrime = next_prime it" "it' = nextPrime + 1"
    by (auto simp: primesieve_next_prime_def Let_def)
  with 2(3) next_prime_ge [of it] show ?case by auto
qed

declare skipPrimes.simps [simp del]

text \<open>
  Its second inner loop,
  \<^verbatim>\<open>while ((initialValue += (*iterationNbr)++) < nextPrime) { if (*iterationNbr >= n) break; }\<close>
  returning the new \<^verbatim>\<open>initialValue\<close> and \<^verbatim>\<open>*iterationNbr\<close>.
\<close>

function addTerms :: "int \<Rightarrow> int \<Rightarrow> int \<Rightarrow> int \<Rightarrow> int \<times> int" where
  "addTerms initialValue iterationNbr n nextPrime =
     (let initialValue' = initialValue + iterationNbr;
          iterationNbr' = iterationNbr + 1 in
      if initialValue' < nextPrime then
        (if iterationNbr' \<ge> n then (initialValue', iterationNbr')
         else addTerms initialValue' iterationNbr' n nextPrime)
      else (initialValue', iterationNbr'))"
  by pat_completeness auto
termination
  by (relation "measure (\<lambda>(initialValue, iterationNbr, n, nextPrime). nat (n - iterationNbr))")
    auto

declare addTerms.simps [simp del]

lemma addTerms_iter: "addTerms v k n q = (v', k') \<Longrightarrow> k < k'"
proof (induction v k n q rule: addTerms.induct)
  case (1 v k n q)
  show ?case
  proof (cases "v + k < q \<and> \<not> k + 1 \<ge> n")
    case True
    then have "addTerms v k n q = addTerms (v + k) (k + 1) n q"
      by (simp add: addTerms.simps [of v k])
    with "1.prems" "1.IH" [OF refl refl _ _] True show ?thesis by fastforce
  next
    case False
    with "1.prems" show ?thesis
      by (auto simp: addTerms.simps [of v k] Let_def split: if_splits)
  qed
qed

text \<open>
  The \<^verbatim>\<open>do ... while (*iterationNbr < n)\<close> loop; the result is the returned value and the
  final \<^verbatim>\<open>*iterationNbr\<close>.
\<close>

function checkLoop :: "primesieve_iterator \<Rightarrow> int \<Rightarrow> int \<Rightarrow> int \<Rightarrow> int \<times> int" where
  "checkLoop it initialValue iterationNbr n =
     (let (nextPrime, it') = skipPrimes it initialValue in
      if nextPrime = initialValue then (initialValue, iterationNbr)
      else
        (let (initialValue', iterationNbr') = addTerms initialValue iterationNbr n nextPrime in
         if nextPrime = initialValue' then (initialValue', iterationNbr')
         else if iterationNbr' < n then checkLoop it' initialValue' iterationNbr' n
         else (0, iterationNbr')))"
  by pat_completeness auto
termination
proof (relation "measure (\<lambda>(it, initialValue, iterationNbr, n). nat (n - iterationNbr))",
    goal_cases)
  case 1
  show ?case by simp
next
  case (2 it initialValue iterationNbr n x nextPrime it' xa initialValue' iterationNbr')
  from 2 have "addTerms initialValue iterationNbr n nextPrime = (initialValue', iterationNbr')"
    by metis
  then have "iterationNbr < iterationNbr'" by (rule addTerms_iter)
  with 2 show ?case by simp
qed

declare checkLoop.simps [simp del]

definition CheckSequence :: "int \<Rightarrow> int \<Rightarrow> int \<times> int" where
  "CheckSequence initialValue n = checkLoop (primesieve_jump_to initialValue) initialValue 1 n"

section \<open>Program 2: looking the terms up in a table of primes\<close>

text \<open>\<^verbatim>\<open>upperBoundDiff = n*(n+1)/2;\<close> in \<^verbatim>\<open>main\<close>, in 64-bit arithmetic.\<close>

definition upperBoundDiff :: "int \<Rightarrow> int" where
  "upperBoundDiff n = truncDiv (wrap64 (n * wrap64 (n + 1))) 2"

text \<open>
  The marking loop of \<^verbatim>\<open>fillArrayOfPrimes\<close>,
  \<^verbatim>\<open>lastPrime = next(); while ((pIndex = lastPrime - offset) < primeSize)
     { primeArray[pIndex] = 1; lastPrime = next(); }\<close>
  with the fetch of the prime moved to the head of each round.
\<close>

function markPrimes :: "int \<Rightarrow> int \<Rightarrow> primesieve_iterator \<Rightarrow> bool list \<Rightarrow> error + bool list" where
  "markPrimes offset primeSize it primeArray =
     (let (lastPrime, it') = primesieve_next_prime it;
          pIndex = lastPrime - offset in
      if pIndex < primeSize then
        (case writeCell primeArray pIndex True of
           Inl e \<Rightarrow> Inl e
         | Inr a \<Rightarrow> markPrimes offset primeSize it' a)
      else Inr primeArray)"
  by pat_completeness auto
termination
proof (relation "measure (\<lambda>(offset, primeSize, it, primeArray). nat (offset + primeSize - it))",
    goal_cases)
  case 1
  show ?case by simp
next
  case (2 offset primeSize it primeArray x lastPrime it' pIndex a)
  then have "lastPrime = next_prime it" "it' = lastPrime + 1"
    by (auto simp: primesieve_next_prime_def Let_def)
  with 2(3,4) next_prime_ge [of it] show ?case by auto
qed

declare markPrimes.simps [simp del]

text \<open>
  \<^verbatim>\<open>fillArrayOfPrimes\<close>: the table has \<^verbatim>\<open>primeSize = memSize + upperBoundDiff\<close> cells, all
  cleared, then the primes from \<^verbatim>\<open>offset\<close> on are marked. (The program allocates the block
  on the first call and clears all of it on every call; \<^verbatim>\<open>memSize\<close> and
  \<^verbatim>\<open>upperBoundDiff\<close> never change.) A negative \<^verbatim>\<open>primeSize\<close>, which a wrapped
  \<^verbatim>\<open>upperBoundDiff\<close> can give, is a huge \<^verbatim>\<open>size_t\<close> that \<^verbatim>\<open>malloc\<close> refuses. In the
  multi-threaded program the offset is the global \<^verbatim>\<open>globalOffset\<close>.
\<close>

definition fillArrayOfPrimes :: "int \<Rightarrow> int \<Rightarrow> int \<Rightarrow> error + bool list" where
  "fillArrayOfPrimes offset memSize ubd =
     (let primeSize = memSize + ubd in
      if primeSize < 0 then Inl AllocationFailed
      else markPrimes offset primeSize (primesieve_jump_to offset)
             (replicate (nat primeSize) False))"

text \<open>
  \<^verbatim>\<open>isCorrectValue\<close>:
  \<^verbatim>\<open>while (i < n) { if (primeArray[(valueOffset += (i++))]) return 0; } return 1;\<close>
\<close>

function testTerms :: "bool list \<Rightarrow> int \<Rightarrow> int \<Rightarrow> int \<Rightarrow> error + bool" where
  "testTerms primeArray i valueOffset n =
     (if i < n then
        (let valueOffset' = valueOffset + i; i' = i + 1 in
         case readCell primeArray valueOffset' of
           Inl e \<Rightarrow> Inl e
         | Inr c \<Rightarrow> if c then Inr False else testTerms primeArray i' valueOffset' n)
      else Inr True)"
  by pat_completeness auto
termination
  by (relation "measure (\<lambda>(primeArray, i, valueOffset, n). nat (n - i))") auto

declare testTerms.simps [simp del]

definition isCorrectValue :: "bool list \<Rightarrow> int \<Rightarrow> int \<Rightarrow> int \<Rightarrow> error + bool" where
  "isCorrectValue primeArray offset v n = testTerms primeArray 0 (v - offset) n"

text \<open>
  The search loop of \<^verbatim>\<open>main\<close>:
  \<^verbatim>\<open>while (1) { if (startValue-offset >= memSize) fillArrayOfPrimes(offset = startValue, memSize);
     res = isCorrectValue(offset, startValue, n); if (res) break; startValue++; }\<close>
\<close>

definition refill :: "bool list \<Rightarrow> int \<Rightarrow> int \<Rightarrow> int \<Rightarrow> int \<Rightarrow> error + bool list \<times> int" where
  "refill primeArray offset startValue memSize ubd =
     (if startValue - offset \<ge> memSize then
        (case fillArrayOfPrimes startValue memSize ubd of
           Inl e \<Rightarrow> Inl e
         | Inr a \<Rightarrow> Inr (a, startValue))
      else Inr (primeArray, offset))"

partial_function (option) mainSearch ::
  "bool list \<Rightarrow> int \<Rightarrow> int \<Rightarrow> int \<Rightarrow> int \<Rightarrow> int \<Rightarrow> (error + int) option" where
  "mainSearch primeArray offset startValue n memSize ubd =
     (case refill primeArray offset startValue memSize ubd of
        Inl e \<Rightarrow> Some (Inl e)
      | Inr (primeArray', offset') \<Rightarrow>
          (case isCorrectValue primeArray' offset' startValue n of
             Inl e \<Rightarrow> Some (Inl e)
           | Inr res \<Rightarrow>
               if res then Some (Inr startValue)
               else mainSearch primeArray' offset' (startValue + 1) n memSize ubd))"

declare mainSearch.simps [code]

text \<open>\<^verbatim>\<open>main\<close> up to the report of the start value.\<close>

definition main2 :: "int \<Rightarrow> int \<Rightarrow> (error + int) option" where
  "main2 n memSize =
     (let ubd = upperBoundDiff n in
      case fillArrayOfPrimes 0 memSize ubd of
        Inl e \<Rightarrow> Some (Inl e)
      | Inr primeArray \<Rightarrow> mainSearch primeArray 0 0 n memSize ubd)"

text \<open>
  The rounds of the search loop of \<^verbatim>\<open>main\<close> that work on one table: from \<^verbatim>\<open>startValue\<close> on,
  until a value passes \<^verbatim>\<open>isCorrectValue\<close> (the result is its index
  \<^verbatim>\<open>startValue - offset\<close>) or the guard \<^verbatim>\<open>startValue-offset >= memSize\<close> asks for the next
  table (the result is \<open>-1\<close>). This is the forward strategy on the window
  \<open>[offset, offset + memSize)\<close>.
\<close>

function scanWindow :: "bool list \<Rightarrow> int \<Rightarrow> int \<Rightarrow> int \<Rightarrow> int \<Rightarrow> error + int" where
  "scanWindow primeArray offset startValue n memSize =
     (if startValue - offset \<ge> memSize then Inr (- 1)
      else
        (case isCorrectValue primeArray offset startValue n of
           Inl e \<Rightarrow> Inl e
         | Inr res \<Rightarrow>
             if res then Inr (startValue - offset)
             else scanWindow primeArray offset (startValue + 1) n memSize))"
  by pat_completeness auto
termination
  by (relation "measure (\<lambda>(primeArray, offset, startValue, n, memSize).
        nat (offset + memSize - startValue))") auto

declare scanWindow.simps [simp del]

definition forwardWindow :: "int \<Rightarrow> int \<Rightarrow> int \<Rightarrow> error + int" where
  "forwardWindow offset n memSize =
     (case fillArrayOfPrimes offset memSize (upperBoundDiff n) of
        Inl e \<Rightarrow> Inl e
      | Inr primeArray \<Rightarrow> scanWindow primeArray offset offset n memSize)"

section \<open>Program 3: the table strategy on several threads\<close>

text \<open>
  Each thread runs \<^verbatim>\<open>mainLoop\<close>. Its only shared variable that changes is
  \<^verbatim>\<open>bestValue\<close> (volatile, written under the mutex), so a thread is modelled as a small
  machine that touches \<^verbatim>\<open>bestValue\<close> once per step (the two reads of the loop's
  \<^verbatim>\<open>bestValue && bestValue < *startValue\<close> count as one): \<open>Testing v\<close> is at the head of
  the \<^verbatim>\<open>while\<close> loop with \<^verbatim>\<open>*startValue = v\<close>, \<open>AtLock v\<close> has left the loop through
  \<^verbatim>\<open>break\<close> and waits for the mutex, \<open>Returned r\<close> has handed \<open>r\<close> back.
\<close>

datatype worker = Testing int | AtLock int | Returned int

text \<open>
  One step of \<^verbatim>\<open>mainLoop\<close>. At \<open>Testing v\<close>: when the guard
  \<^verbatim>\<open>*startValue < memSize + globalOffset\<close> fails the thread leaves with \<open>-1\<close>; otherwise
  it tests \<open>v\<close> and either breaks (\<^verbatim>\<open>res || (bestValue && bestValue < *startValue)\<close>; the
  test after the loop then fails, since the guard held) or adds \<^verbatim>\<open>numThreads\<close>. At
  \<open>AtLock v\<close>: \<^verbatim>\<open>if (!bestValue || *startValue < bestValue) bestValue = *startValue;\<close>
\<close>

fun mainLoopStep ::
  "bool list \<Rightarrow> int \<Rightarrow> int \<Rightarrow> int \<Rightarrow> int \<Rightarrow> worker \<Rightarrow> int \<Rightarrow> error + worker \<times> int" where
  "mainLoopStep primeArray n memSize globalOffset numThreads (Testing v) bestValue =
     (if v < memSize + globalOffset then
        (case isCorrectValue primeArray globalOffset v n of
           Inl e \<Rightarrow> Inl e
         | Inr res \<Rightarrow>
             if res \<or> (bestValue \<noteq> 0 \<and> bestValue < v) then Inr (AtLock v, bestValue)
             else Inr (Testing (v + numThreads), bestValue))
      else Inr (Returned (- 1), bestValue))"
| "mainLoopStep primeArray n memSize globalOffset numThreads (AtLock v) bestValue =
     Inr (Returned v, if bestValue = 0 \<or> v < bestValue then v else bestValue)"
| "mainLoopStep primeArray n memSize globalOffset numThreads (Returned r) bestValue =
     Inr (Returned r, bestValue)"

text \<open>
  The threads of one window under a schedule: the list names, step by step, the thread
  that moves next.
\<close>

fun runSchedule ::
  "(worker \<Rightarrow> int \<Rightarrow> error + worker \<times> int) \<Rightarrow> nat list \<Rightarrow> worker list \<Rightarrow> int
     \<Rightarrow> error + worker list \<times> int" where
  "runSchedule step [] workers bestValue = Inr (workers, bestValue)"
| "runSchedule step (t # ts) workers bestValue =
     (if t < length workers then
        (case step (workers ! t) bestValue of
           Inl e \<Rightarrow> Inl e
         | Inr (w, b) \<Rightarrow> runSchedule step ts (workers[t := w]) b)
      else runSchedule step ts workers bestValue)"

text \<open>
  One round of the \<^verbatim>\<open>while (!bestValue)\<close> loop of \<^verbatim>\<open>main\<close>: fill the table, start
  thread \<open>i\<close> at \<^verbatim>\<open>tab[i] = i + globalOffset\<close>, let the threads run. The result is the
  threads' states and \<^verbatim>\<open>bestValue\<close> once the schedule is used up.
\<close>

definition spawn :: "int \<Rightarrow> int \<Rightarrow> worker list" where
  "spawn numThreads globalOffset =
     map (\<lambda>i. Testing (int i + globalOffset)) [0..<nat numThreads]"

definition runWindow ::
  "int \<Rightarrow> int \<Rightarrow> int \<Rightarrow> int \<Rightarrow> int \<Rightarrow> nat list \<Rightarrow> error + worker list \<times> int" where
  "runWindow n memSize numThreads globalOffset bestValue schedule =
     (case fillArrayOfPrimes globalOffset memSize (upperBoundDiff n) of
        Inl e \<Rightarrow> Inl e
      | Inr primeArray \<Rightarrow>
          runSchedule (mainLoopStep primeArray n memSize globalOffset numThreads) schedule
            (spawn numThreads globalOffset) bestValue)"

fun joined :: "worker \<Rightarrow> bool" where
  "joined (Returned r) = True"
| "joined w = False"

text \<open>
  \<^verbatim>\<open>main\<close>: \<^verbatim>\<open>while (!bestValue) { ...; globalOffset += memSize; }\<close>, one schedule for each
  window. \<^verbatim>\<open>pthread_join\<close> waits for every thread, so a schedule that leaves a thread
  unfinished is no run of the program (\<open>None\<close>), and so is a list of schedules that is used
  up while \<^verbatim>\<open>bestValue\<close> is still 0.
\<close>

fun mainMT :: "int \<Rightarrow> int \<Rightarrow> int \<Rightarrow> int \<Rightarrow> int \<Rightarrow> nat list list \<Rightarrow> (error + int) option" where
  "mainMT n memSize numThreads globalOffset bestValue schedules =
     (if bestValue = 0 then
        (case schedules of
           [] \<Rightarrow> None
         | schedule # rest \<Rightarrow>
            (case runWindow n memSize numThreads globalOffset bestValue schedule of
               Inl e \<Rightarrow> Some (Inl e)
             | Inr (workers, b) \<Rightarrow>
                 if list_all joined workers
                 then mainMT n memSize numThreads (globalOffset + memSize) b rest
                 else None))
      else Some (Inr bestValue))"

section \<open>Specification predicates\<close>

text \<open>The contract of an engine on the window \<open>[offset, offset + sz)\<close>: \<open>r\<close> is the least
  index of a valid start value, or \<open>-1\<close> when the window holds none.\<close>

definition engineResult :: "int \<Rightarrow> int \<Rightarrow> int \<Rightarrow> int \<Rightarrow> bool" where
  "engineResult offset n sz r \<longleftrightarrow>
     (r = - 1 \<and> (\<forall>k. 0 \<le> k \<and> k < sz \<longrightarrow> \<not> validStart (offset + k) n)) \<or>
     (0 \<le> r \<and> r < sz \<and> validStart (offset + r) n \<and>
      (\<forall>k. 0 \<le> k \<and> k < r \<longrightarrow> \<not> validStart (offset + k) n))"

text \<open>\<open>v\<close> is the least valid start value at or after \<open>s\<close>.\<close>

definition leastValidFrom :: "int \<Rightarrow> int \<Rightarrow> int \<Rightarrow> bool" where
  "leastValidFrom s n v \<longleftrightarrow>
     s \<le> v \<and> validStart v n \<and> (\<forall>u. s \<le> u \<and> u < v \<longrightarrow> \<not> validStart u n)"

text \<open>Cell \<open>k\<close> of the window at \<open>offset\<close> is hit by a prime below the iterator's position:
  some term \<open>0 .. n\<close> of the sequence started at \<open>offset + k\<close> is such a prime.\<close>

definition crossedBelow :: "int \<Rightarrow> int \<Rightarrow> int \<Rightarrow> int \<Rightarrow> bool" where
  "crossedBelow offset n it k \<longleftrightarrow>
     (\<exists>p j. is_prime p \<and> offset \<le> p \<and> p < it \<and> 0 \<le> j \<and> j \<le> n \<and> offset + k = p - T j)"

text \<open>A table that marks the primes of \<open>[offset, offset + memSize + T n)\<close>.\<close>

definition primeTable :: "bool list \<Rightarrow> int \<Rightarrow> int \<Rightarrow> int \<Rightarrow> bool" where
  "primeTable a offset n memSize \<longleftrightarrow>
     int (length a) = memSize + T n \<and>
     (\<forall>j. 0 \<le> j \<and> j < memSize + T n \<longrightarrow> a ! nat j = is_prime (offset + j))"

text \<open>A thread at the head of its loop holds a value at or after the window's offset.\<close>

fun inWindow :: "int \<Rightarrow> worker \<Rightarrow> bool" where
  "inWindow globalOffset (Testing v) = (globalOffset \<le> v)"
| "inWindow globalOffset w = True"

section \<open>Triangular numbers\<close>

lemma T_0 [simp]: "T 0 = 0"
  by (simp add: T_def)

lemma T_step: "T (i + 1) = T i + i + 1"
proof -
  have "(i + 1) * (i + 1 + 1) = i * (i + 1) + (i + 1) * 2" by (simp add: algebra_simps)
  then have "T (i + 1) = (i * (i + 1) + (i + 1) * 2) div 2" by (simp add: T_def)
  also have "\<dots> = i * (i + 1) div 2 + (i + 1)" by simp
  finally show ?thesis by (simp add: T_def)
qed

lemma T_pred: "T (i - 1) = T i - i"
  using T_step [of "i - 1"] by simp

lemma T_mono_step: "0 \<le> i \<Longrightarrow> i \<le> j \<Longrightarrow> T i \<le> T j"
proof (induction "nat (j - i)" arbitrary: j)
  case 0
  then show ?case by simp
next
  case (Suc d)
  then have "d = nat (j - 1 - i)" "i \<le> j - 1" by auto
  from Suc.hyps(1) [OF this(1) Suc.prems(1) this(2)] have "T i \<le> T (j - 1)" .
  also have "\<dots> \<le> T j" using T_pred [of j] Suc.prems \<open>i \<le> j - 1\<close> by simp
  finally show ?case .
qed

lemma T_nonneg: "0 \<le> i \<Longrightarrow> 0 \<le> T i"
  using T_mono_step [of 0 i] by simp

lemma T_inj_gap: "0 \<le> i \<Longrightarrow> i \<le> j \<Longrightarrow> i \<le> T j - T (i - 1)"
  using T_mono_step [of i j] T_pred [of i] by simp

section \<open>What one prime crosses out\<close>

lemma ruleOut_spec:
  assumes "0 \<le> i" and "length a = nat sz"
  shows "\<exists>a'. ruleOut i n offsetPrime sz a = Inr a' \<and> length a' = length a \<and>
           (\<forall>k. 0 \<le> k \<and> k < sz \<longrightarrow>
              a' ! nat k =
                (a ! nat k \<and> \<not> (\<exists>j. i \<le> j \<and> j \<le> n \<and> k = offsetPrime - (T j - T (i - 1)))))"
  using assms
proof (induction i n offsetPrime sz a rule: ruleOut.induct)
  case (1 i n offsetPrime sz a)
  note i0 = \<open>0 \<le> i\<close> and len = \<open>length a = nat sz\<close>
  show ?case
  proof (cases "i \<le> n")
    case False
    then have "ruleOut i n offsetPrime sz a = Inr a"
      by (simp add: ruleOut.simps [of i n])
    with False show ?thesis by auto
  next
    case le: True
    show ?thesis
    proof (cases "offsetPrime - i < 0")
      case True
      with le have r: "ruleOut i n offsetPrime sz a = Inr a"
        by (simp add: ruleOut.simps [of i n])
      have "\<not> (\<exists>j. i \<le> j \<and> j \<le> n \<and> k = offsetPrime - (T j - T (i - 1)))" if "0 \<le> k" for k
      proof
        assume "\<exists>j. i \<le> j \<and> j \<le> n \<and> k = offsetPrime - (T j - T (i - 1))"
        then obtain j where j: "i \<le> j" "k = offsetPrime - (T j - T (i - 1))" by blast
        from T_inj_gap [OF i0 j(1)] j(2) True that show False by simp
      qed
      with r show ?thesis by auto
    next
      case nneg: False
      have shift: "offsetPrime - i - (T j - T (i + 1 - 1)) = offsetPrime - (T j - T (i - 1))" for j
        using T_pred [of i] by simp
      have split: "(\<exists>j. i \<le> j \<and> j \<le> n \<and> k = offsetPrime - (T j - T (i - 1))) \<longleftrightarrow>
          k = offsetPrime - i \<or> (\<exists>j. i + 1 \<le> j \<and> j \<le> n \<and> k = offsetPrime - (T j - T (i - 1)))"
        for k
      proof -
        have "offsetPrime - (T i - T (i - 1)) = offsetPrime - i" using T_pred [of i] by simp
        moreover have "i \<le> j \<longleftrightarrow> j = i \<or> i + 1 \<le> j" for j by auto
        ultimately show ?thesis using le by metis
      qed
      show ?thesis
      proof (cases "offsetPrime - i \<ge> sz")
        case True
        with le nneg have r: "ruleOut i n offsetPrime sz a = ruleOut (i + 1) n (offsetPrime - i) sz a"
          by (simp add: ruleOut.simps [of i n])
        from "1.IH"(1) [OF le refl refl nneg True _ len] i0
        obtain a' where a': "ruleOut (i + 1) n (offsetPrime - i) sz a = Inr a'"
          "length a' = length a"
          "\<forall>k. 0 \<le> k \<and> k < sz \<longrightarrow> a' ! nat k =
             (a ! nat k \<and> \<not> (\<exists>j. i + 1 \<le> j \<and> j \<le> n \<and> k = offsetPrime - i - (T j - T (i + 1 - 1))))"
          by auto
        have "\<forall>k. 0 \<le> k \<and> k < sz \<longrightarrow> a' ! nat k =
             (a ! nat k \<and> \<not> (\<exists>j. i \<le> j \<and> j \<le> n \<and> k = offsetPrime - (T j - T (i - 1))))"
          using a'(3) True unfolding shift split by auto
        with a'(1,2) r show ?thesis by auto
      next
        case False
        with nneg len have inb: "0 \<le> offsetPrime - i" "offsetPrime - i < int (length a)" by auto
        define b where "b = a[nat (offsetPrime - i) := False]"
        have w: "writeCell a (offsetPrime - i) False = Inr b"
          using inb by (simp add: writeCell_def b_def)
        with le nneg False have r: "ruleOut i n offsetPrime sz a = ruleOut (i + 1) n (offsetPrime - i) sz b"
          by (simp add: ruleOut.simps [of i n])
        have lenb: "length b = nat sz" using len by (simp add: b_def)
        from "1.IH"(2) [OF le refl refl nneg False w _ lenb] i0
        obtain a' where a': "ruleOut (i + 1) n (offsetPrime - i) sz b = Inr a'"
          "length a' = length b"
          "\<forall>k. 0 \<le> k \<and> k < sz \<longrightarrow> a' ! nat k =
             (b ! nat k \<and> \<not> (\<exists>j. i + 1 \<le> j \<and> j \<le> n \<and> k = offsetPrime - i - (T j - T (i + 1 - 1))))"
          by auto
        have bk: "b ! nat k = (a ! nat k \<and> k \<noteq> offsetPrime - i)" if "0 \<le> k" "k < sz" for k
          using that len inb by (auto simp: b_def nth_list_update)
        have "\<forall>k. 0 \<le> k \<and> k < sz \<longrightarrow> a' ! nat k =
             (a ! nat k \<and> \<not> (\<exists>j. i \<le> j \<and> j \<le> n \<and> k = offsetPrime - (T j - T (i - 1))))"
          using a'(3) bk unfolding shift split by auto
        with a'(1,2) r lenb len show ?thesis by auto
      qed
    qed
  qed
qed

lemma noPrimeTermFrom_iff:
  "noPrimeTermFrom A i n \<longleftrightarrow> (\<forall>j. i \<le> j \<and> j < n \<longrightarrow> \<not> is_prime (A + T j))"
proof (induction A i n rule: noPrimeTermFrom.induct)
  case (1 A i n)
  show ?case
  proof (cases "i < n")
    case False
    then show ?thesis by (auto simp: noPrimeTermFrom.simps [of A i n])
  next
    case True
    have "i \<le> j \<longleftrightarrow> j = i \<or> i + 1 \<le> j" for j by auto
    with True "1.IH" [OF True] show ?thesis
      by (simp add: noPrimeTermFrom.simps [of A i n]) metis
  qed
qed

lemma validStart_iff:
  "validStart A n \<longleftrightarrow> (\<forall>j. 0 \<le> j \<and> j < n \<longrightarrow> \<not> is_prime (A + T j))"
  by (simp add: validStart_def noPrimeTermFrom_iff)

section \<open>The backward engine finds the least valid index\<close>

lemma nextAlive_spec:
  assumes "length a = nat sz" and "0 \<le> psi"
  shows "\<exists>r. nextAlive psi sz a = Inr r \<and> psi < r \<and> r \<le> max (psi + 1) sz \<and>
           (\<forall>k. psi < k \<and> k < r \<longrightarrow> \<not> a ! nat k) \<and> (r < sz \<longrightarrow> a ! nat r)"
  using assms
proof (induction psi sz a rule: nextAlive.induct)
  case (1 psi sz a)
  show ?case
  proof (cases "psi + 1 < sz")
    case False
    then have "nextAlive psi sz a = Inr (psi + 1)"
      by (simp add: nextAlive.simps [of psi])
    with False show ?thesis by auto
  next
    case True
    with "1.prems" have rd: "readCell a (psi + 1) = Inr (a ! nat (psi + 1))"
      by (simp add: readCell_def)
    show ?thesis
    proof (cases "a ! nat (psi + 1)")
      case alive: True
      with True rd have "nextAlive psi sz a = Inr (psi + 1)"
        by (simp add: nextAlive.simps [of psi])
      with alive True show ?thesis by auto
    next
      case dead: False
      with True rd have r: "nextAlive psi sz a = nextAlive (psi + 1) sz a"
        by (simp add: nextAlive.simps [of psi])
      from "1.IH" [OF refl True rd _ "1.prems"(1)] dead "1.prems"(2)
      obtain r where r': "nextAlive (psi + 1) sz a = Inr r" "psi + 1 < r" "r \<le> max (psi + 1 + 1) sz"
        "\<forall>k. psi + 1 < k \<and> k < r \<longrightarrow> \<not> a ! nat k" "r < sz \<longrightarrow> a ! nat r"
        by auto
      have "\<not> a ! nat k" if "psi < k" "k < r" for k
      proof (cases "k = psi + 1")
        case True
        with dead show ?thesis by simp
      next
        case False
        with that r'(4) show ?thesis by auto
      qed
      with r r' True show ?thesis by auto
    qed
  qed
qed

lemma crossedBelow_invalid:
  "crossedBelow offset n it k \<Longrightarrow> \<not> validStart (offset + k) (n + 1)"
proof -
  assume "crossedBelow offset n it k"
  then obtain p j where "is_prime p" "0 \<le> j" "j \<le> n" "offset + k = p - T j"
    by (auto simp: crossedBelow_def)
  then have "is_prime (offset + k + T j)" "0 \<le> j" "j < n + 1" by auto
  then show ?thesis unfolding validStart_iff by blast
qed

lemma not_crossed_valid:
  assumes "\<not> crossedBelow offset n it k" and "0 \<le> k" and "0 \<le> n"
    and "offset + k + T n < it"
  shows "validStart (offset + k) (n + 1)"
  unfolding validStart_iff
proof (intro allI impI)
  fix j assume j: "0 \<le> j \<and> j < n + 1"
  show "\<not> is_prime (offset + k + T j)"
  proof
    assume pr: "is_prime (offset + k + T j)"
    have "T j \<le> T n" using j by (intro T_mono_step) auto
    moreover have "0 \<le> T j" using j by (intro T_nonneg) auto
    ultimately have "offset \<le> offset + k + T j" "offset + k + T j < it"
      using assms(2,4) by auto
    with pr j have "crossedBelow offset n it k"
      unfolding crossedBelow_def by (intro exI [of _ "offset + k + T j"] exI [of _ j]) auto
    with assms(1) show False by contradiction
  qed
qed

lemma crossedBelow_step:
  assumes "offset \<le> it"
  shows "crossedBelow offset n (next_prime it + 1) k \<longleftrightarrow>
           crossedBelow offset n it k \<or>
           (\<exists>j. 0 \<le> j \<and> j \<le> n \<and> k = next_prime it - offset - (T j - T (0 - 1)))"
proof -
  have Tm: "T (0 - 1) = 0" by (simp add: T_def)
  have ge: "it \<le> next_prime it" by (rule next_prime_ge)
  have pr: "is_prime (next_prime it)" by (rule next_prime_prime)
  have which: "is_prime p \<and> p < next_prime it + 1 \<longleftrightarrow> is_prime p \<and> (p < it \<or> p = next_prime it)"
    for p
  proof (cases "p < it")
    case True
    with ge show ?thesis by auto
  next
    case False
    then have "it \<le> p" by simp
    from no_prime_before_next [OF this] pr False show ?thesis
      by (cases "p < next_prime it") auto
  qed
  show ?thesis
    unfolding crossedBelow_def Tm
  proof
    assume "\<exists>p j. is_prime p \<and> offset \<le> p \<and> p < next_prime it + 1 \<and> 0 \<le> j \<and> j \<le> n \<and>
       offset + k = p - T j"
    then obtain p j where h: "is_prime p" "offset \<le> p" "p < next_prime it + 1" "0 \<le> j" "j \<le> n"
       "offset + k = p - T j" by blast
    from h(1,3) which have "p < it \<or> p = next_prime it" by blast
    then show "(\<exists>p j. is_prime p \<and> offset \<le> p \<and> p < it \<and> 0 \<le> j \<and> j \<le> n \<and> offset + k = p - T j)
       \<or> (\<exists>j. 0 \<le> j \<and> j \<le> n \<and> k = next_prime it - offset - (T j - 0))"
    proof
      assume "p < it"
      with h show ?thesis by blast
    next
      assume "p = next_prime it"
      with h have "0 \<le> j \<and> j \<le> n \<and> k = next_prime it - offset - (T j - 0)" by auto
      then show ?thesis by blast
    qed
  next
    assume "(\<exists>p j. is_prime p \<and> offset \<le> p \<and> p < it \<and> 0 \<le> j \<and> j \<le> n \<and> offset + k = p - T j)
       \<or> (\<exists>j. 0 \<le> j \<and> j \<le> n \<and> k = next_prime it - offset - (T j - 0))"
    then show "\<exists>p j. is_prime p \<and> offset \<le> p \<and> p < next_prime it + 1 \<and> 0 \<le> j \<and> j \<le> n \<and>
       offset + k = p - T j"
    proof
      assume "\<exists>p j. is_prime p \<and> offset \<le> p \<and> p < it \<and> 0 \<le> j \<and> j \<le> n \<and> offset + k = p - T j"
      then obtain p j where "is_prime p" "offset \<le> p" "p < it" "0 \<le> j" "j \<le> n"
        "offset + k = p - T j" by blast
      with ge show ?thesis by (intro exI [of _ p] exI [of _ j]) auto
    next
      assume "\<exists>j. 0 \<le> j \<and> j \<le> n \<and> k = next_prime it - offset - (T j - 0)"
      then obtain j where "0 \<le> j" "j \<le> n" "k = next_prime it - offset - (T j - 0)" by blast
      with ge pr assms show ?thesis by (intro exI [of _ "next_prime it"] exI [of _ j]) auto
    qed
  qed
qed

lemma engineResult_unique:
  "engineResult offset n sz r \<Longrightarrow> engineResult offset n sz r' \<Longrightarrow> r = r'"
  unfolding engineResult_def
  by (metis linorder_neqE_linordered_idom)

text \<open>The loop, for a window in which the sum of the loop test stays in range at every
  index the pointer can reach (every smaller index is then not valid).\<close>

lemma processLoop_spec:
  assumes n0: "0 \<le> n"
    and range: "\<forall>k. 0 \<le> k \<and> k < sz \<and> (\<forall>j. 0 \<le> j \<and> j < k \<longrightarrow> \<not> validStart (offset + j) (n + 1)) \<longrightarrow>
       k + T n < 2 ^ 63"
  shows "length a = nat sz \<Longrightarrow> 0 \<le> psi \<Longrightarrow> psi < sz \<Longrightarrow> offset \<le> it \<Longrightarrow>
     (\<forall>k. 0 \<le> k \<and> k < sz \<longrightarrow> a ! nat k = (\<not> crossedBelow offset n it k)) \<Longrightarrow>
     (\<forall>k. 0 \<le> k \<and> k < psi \<longrightarrow> \<not> a ! nat k) \<Longrightarrow>
     \<exists>r. processLoop offset n (T n) sz it a psi = Inr r \<and> engineResult offset (n + 1) sz r"
proof (induction "nat (offset + sz + T n + 1 - it)" arbitrary: it a psi rule: less_induct)
  case less
  note len = less.prems(1) and psi0 = less.prems(2) and psi_lt = less.prems(3)
    and off = less.prems(4) and alive = less.prems(5) and below = less.prems(6)
  define p where "p = next_prime it"
  have nx: "primesieve_next_prime it = (p, p + 1)"
    by (simp add: primesieve_next_prime_def p_def Let_def)
  have ge: "it \<le> p" unfolding p_def by (rule next_prime_ge)
  from ruleOut_spec [of 0 a sz n "p - offset"] len
  obtain a1 where a1: "ruleOut 0 n (p - offset) sz a = Inr a1" "length a1 = length a"
    and a1_cells: "\<forall>k. 0 \<le> k \<and> k < sz \<longrightarrow> a1 ! nat k =
       (a ! nat k \<and> \<not> (\<exists>j. 0 \<le> j \<and> j \<le> n \<and> k = p - offset - (T j - T (0 - 1))))"
    by auto
  have alive1: "a1 ! nat k = (\<not> crossedBelow offset n (p + 1) k)" if "0 \<le> k" "k < sz" for k
    using a1_cells alive that crossedBelow_step [OF off, of n k] unfolding p_def by simp
  have dead1: "\<not> a1 ! nat k" if "0 \<le> k" "k < sz" "\<not> a ! nat k" for k
    using a1_cells that by simp
  have rd: "readCell a1 q = Inr (a1 ! nat q)" if "0 \<le> q" "q < sz" for q
    using that a1(2) len by (simp add: readCell_def)
  have wr: "wrap64 (q + T n) = q + T n"
    if q: "0 \<le> q" "q < sz" "\<forall>k. 0 \<le> k \<and> k < q \<longrightarrow> \<not> a1 ! nat k" for q
  proof -
    have "\<not> validStart (offset + j) (n + 1)" if "0 \<le> j" "j < q" for j
    proof -
      have "crossedBelow offset n (p + 1) j" using alive1 [of j] q(2,3) that by auto
      then show ?thesis by (rule crossedBelow_invalid)
    qed
    with range q(1,2) have "q + T n < 2 ^ 63" by blast
    moreover have "0 \<le> T n" using n0 by (rule T_nonneg)
    ultimately show ?thesis using q(1) by (intro wrap64_id) auto
  qed
  have final: "engineResult offset (n + 1) sz q"
    if q: "0 \<le> q" "q < sz" "a1 ! nat q" "\<forall>k. 0 \<le> k \<and> k < q \<longrightarrow> \<not> a1 ! nat k"
      "\<not> q + T n \<ge> p - offset" for q
  proof -
    have "\<not> crossedBelow offset n (p + 1) q" using alive1 q(1-3) by simp
    moreover have "offset + q + T n < p + 1" using q(5) by simp
    ultimately have "validStart (offset + q) (n + 1)"
      using q(1) n0 by (intro not_crossed_valid)
    moreover have "\<not> validStart (offset + k) (n + 1)" if "0 \<le> k" "k < q" for k
    proof -
      have "crossedBelow offset n (p + 1) k" using alive1 [of k] q(2,4) that by auto
      then show ?thesis by (rule crossedBelow_invalid)
    qed
    ultimately show ?thesis using q(1,2) unfolding engineResult_def by auto
  qed
  have again: "\<exists>r. processLoop offset n (T n) sz (p + 1) a1 q = Inr r \<and>
      engineResult offset (n + 1) sz r"
    if q: "0 \<le> q" "q < sz" "\<forall>k. 0 \<le> k \<and> k < q \<longrightarrow> \<not> a1 ! nat k" "q + T n \<ge> p - offset" for q
  proof (rule less.hyps)
    show "nat (offset + sz + T n + 1 - (p + 1)) < nat (offset + sz + T n + 1 - it)"
      using q(2,4) ge by simp
    show "length a1 = nat sz" using a1(2) len by simp
    show "0 \<le> q" "q < sz" by fact+
    show "offset \<le> p + 1" using off ge by simp
    show "\<forall>k. 0 \<le> k \<and> k < sz \<longrightarrow> a1 ! nat k = (\<not> crossedBelow offset n (p + 1) k)"
      using alive1 by simp
    show "\<forall>k. 0 \<le> k \<and> k < q \<longrightarrow> \<not> a1 ! nat k" by fact
  qed
  have below1: "\<forall>k. 0 \<le> k \<and> k < psi \<longrightarrow> \<not> a1 ! nat k"
    using below dead1 psi_lt by auto
  show ?case
  proof (cases "a1 ! nat psi")
    case True
    show ?thesis
    proof (cases "psi + T n \<ge> p - offset")
      case go: True
      with True have "processLoop offset n (T n) sz it a psi =
          processLoop offset n (T n) sz (p + 1) a1 psi"
        by (simp add: processLoop.simps [of offset n "T n" sz it a psi] nx a1(1)
            rd [OF psi0 psi_lt] wr [OF psi0 psi_lt below1])
      with again [OF psi0 psi_lt below1 go] show ?thesis by simp
    next
      case stop: False
      with True have "processLoop offset n (T n) sz it a psi = Inr psi"
        by (simp add: processLoop.simps [of offset n "T n" sz it a psi] nx a1(1)
            rd [OF psi0 psi_lt] wr [OF psi0 psi_lt below1])
      with final [OF psi0 psi_lt True below1 stop] show ?thesis by simp
    qed
  next
    case False
    from nextAlive_spec [of a1 sz psi] a1(2) len psi0 psi_lt
    obtain q where q: "nextAlive psi sz a1 = Inr q" "psi < q" "q \<le> sz"
      "\<forall>k. psi < k \<and> k < q \<longrightarrow> \<not> a1 ! nat k" "q < sz \<longrightarrow> a1 ! nat q"
      by auto
    have belowq: "\<forall>k. 0 \<le> k \<and> k < q \<longrightarrow> \<not> a1 ! nat k"
    proof (intro allI impI)
      fix k assume k: "0 \<le> k \<and> k < q"
      consider "k < psi" | "k = psi" | "psi < k" by linarith
      then show "\<not> a1 ! nat k"
        using below1 False q(4) k by cases auto
    qed
    show ?thesis
    proof (cases "q = sz")
      case True
      with False q(1) have r: "processLoop offset n (T n) sz it a psi = Inr (- 1)"
        by (simp add: processLoop.simps [of offset n "T n" sz it a psi] nx a1(1)
            rd [OF psi0 psi_lt])
      have "\<not> validStart (offset + k) (n + 1)" if "0 \<le> k" "k < sz" for k
      proof -
        have "crossedBelow offset n (p + 1) k" using alive1 [of k] belowq True that by auto
        then show ?thesis by (rule crossedBelow_invalid)
      qed
      with r show ?thesis unfolding engineResult_def by auto
    next
      case ne: False
      with q have q_lt: "q < sz" and q0: "0 \<le> q" and q_alive: "a1 ! nat q"
        using psi0 by auto
      show ?thesis
      proof (cases "q + T n \<ge> p - offset")
        case go: True
        with False ne q(1) have "processLoop offset n (T n) sz it a psi =
            processLoop offset n (T n) sz (p + 1) a1 q"
          by (simp add: processLoop.simps [of offset n "T n" sz it a psi] nx a1(1)
              rd [OF psi0 psi_lt] wr [OF q0 q_lt belowq])
        with again [OF q0 q_lt belowq go] show ?thesis by simp
      next
        case stop: False
        with False ne q(1) have "processLoop offset n (T n) sz it a psi = Inr q"
          by (simp add: processLoop.simps [of offset n "T n" sz it a psi] nx a1(1)
              rd [OF psi0 psi_lt] wr [OF q0 q_lt belowq])
        with final [OF q0 q_lt q_alive belowq stop] show ?thesis by simp
      qed
    qed
  qed
qed

lemma initArray_cells:
  "length (initArray sz) = nat sz" "0 \<le> k \<Longrightarrow> k < sz \<Longrightarrow> initArray sz ! nat k"
  by (auto simp: initArray_def)

lemma crossedBelow_none: "\<not> crossedBelow offset n offset k"
  by (auto simp: crossedBelow_def)

lemma T_eq: "n * (n + 1) div 2 = T n"
  by (simp add: T_def)

lemma factor_in_range:
  assumes "1 \<le> (n::int)" and "n * (n - 1) < 2 ^ 63"
  shows "n < 2 ^ 63"
proof (cases "n = 1")
  case True
  then show ?thesis by simp
next
  case False
  with assms(1) have "n * 1 \<le> n * (n - 1)" by (intro mult_left_mono) auto
  with assms(2) show ?thesis by simp
qed

text \<open>Without overflow of the product, \<^verbatim>\<open>processArray\<close> computes \<open>n - 1\<close> and \<open>T (n - 1)\<close>.\<close>

lemma processArray_exact:
  assumes "1 \<le> n" and "n * (n - 1) < 2 ^ 63"
  shows "processArray offset startValueIndex n sz numberArray =
     processLoop offset (n - 1) (T (n - 1)) sz (offset + startValueIndex) numberArray
       startValueIndex"
proof -
  have n63: "n < 2 ^ 63" using assms by (rule factor_in_range)
  have w1: "wrap64 (n - 1) = n - 1" using assms(1) n63 by (intro wrap64_id) auto
  have w2: "wrap64 n = n" using assms(1) n63 by (intro wrap64_id) auto
  have pos: "0 \<le> (n - 1) * n" using assms(1) by simp
  have w3: "wrap64 ((n - 1) * n) = (n - 1) * n"
    using pos assms(2) by (intro wrap64_id) (auto simp: mult.commute)
  have "truncDiv ((n - 1) * n) 2 = (n - 1) * n div 2" using pos by (intro truncDiv_nonneg) auto
  also have "\<dots> = T (n - 1)" by (simp add: T_def)
  finally show ?thesis
    by (simp add: processArray_def Let_def primesieve_jump_to_def w1 w2 w3)
qed

lemma processArray_spec:
  assumes "1 \<le> n" and "1 \<le> sz" and "n * (n - 1) < 2 ^ 63"
    and "\<forall>k. 0 \<le> k \<and> k < sz \<and> (\<forall>j. 0 \<le> j \<and> j < k \<longrightarrow> \<not> validStart (offset + j) n) \<longrightarrow>
       k + T (n - 1) < 2 ^ 63"
  shows "\<exists>r. processArray offset 0 n sz (initArray sz) = Inr r \<and> engineResult offset n sz r"
proof -
  have "\<exists>r. processLoop offset (n - 1) (T (n - 1)) sz offset (initArray sz) 0 = Inr r \<and>
      engineResult offset (n - 1 + 1) sz r"
  proof (rule processLoop_spec)
    show "0 \<le> n - 1" using assms(1) by simp
    show "\<forall>k. 0 \<le> k \<and> k < sz \<and>
        (\<forall>j. 0 \<le> j \<and> j < k \<longrightarrow> \<not> validStart (offset + j) (n - 1 + 1)) \<longrightarrow>
        k + T (n - 1) < 2 ^ 63"
      using assms(4) by simp
    show "length (initArray sz) = nat sz" by (rule initArray_cells)
    show "(0::int) \<le> 0" "0 < sz" "offset \<le> offset" using assms(2) by auto
    show "\<forall>k. 0 \<le> k \<and> k < sz \<longrightarrow> initArray sz ! nat k = (\<not> crossedBelow offset (n - 1) offset k)"
      using initArray_cells(2) crossedBelow_none by auto
    show "\<forall>k. 0 \<le> k \<and> k < (0::int) \<longrightarrow> \<not> initArray sz ! nat k" by auto
  qed
  then show ?thesis
    by (simp add: processArray_exact [OF assms(1,3)])
qed

text \<open>The range hypothesis of \<open>processArray_spec\<close> in two forms: the whole window fits, or a
  valid start value at or after the offset does.\<close>

lemma range_from_window:
  assumes "sz + T m \<le> 2 ^ 63"
  shows "\<forall>k. 0 \<le> k \<and> k < sz \<and> (\<forall>j. 0 \<le> j \<and> j < k \<longrightarrow> \<not> validStart (offset + j) n) \<longrightarrow>
       k + T m < 2 ^ 63"
  using assms by auto

lemma range_from_valid:
  assumes "validStart A n" and "offset \<le> A" and "A - offset + T m < 2 ^ 63"
  shows "\<forall>k. 0 \<le> k \<and> k < sz \<and> (\<forall>j. 0 \<le> j \<and> j < k \<longrightarrow> \<not> validStart (offset + j) n) \<longrightarrow>
       k + T m < 2 ^ 63"
proof (intro allI impI)
  fix k
  assume k: "0 \<le> k \<and> k < sz \<and> (\<forall>j. 0 \<le> j \<and> j < k \<longrightarrow> \<not> validStart (offset + j) n)"
  have "k \<le> A - offset"
  proof (rule ccontr)
    assume "\<not> k \<le> A - offset"
    with assms(2) have "0 \<le> A - offset \<and> A - offset < k" by simp
    with k have "\<not> validStart (offset + (A - offset)) n" by blast
    with assms(1) show False by simp
  qed
  with assms(3) show "k + T m < 2 ^ 63" by simp
qed

lemmas prime_eval = is_prime_def noDivisorFrom.simps

section \<open>Claims about the backward engine\<close>

lemma T_le_product: "0 \<le> m \<Longrightarrow> T m \<le> (m + 1) * m"
proof -
  assume "0 \<le> m"
  then have "0 \<le> m * (m + 1)" by simp
  moreover have "0 \<le> x \<Longrightarrow> x div 2 \<le> x" for x :: int by presburger
  ultimately have "m * (m + 1) div 2 \<le> m * (m + 1)" by blast
  then show ?thesis by (simp add: T_def mult.commute)
qed

text \<open>
  C1 as the spec has it speaks of every sequence length \<open>n \<ge> 1\<close>. For \<open>n = 3037000501\<close>
  the 64-bit product \<^verbatim>\<open>n*(n+1)\<close> (after \<^verbatim>\<open>n--\<close>) wraps to a negative
  \<^verbatim>\<open>upperBoundDiff\<close>; on the window \<open>[0, 10)\<close> the loop of \<^verbatim>\<open>processArray\<close> stops at the
  prime 2 and index 0 is returned, although the term \<open>0 + T 2 = 3\<close> is prime.
\<close>

theorem processArray_overflow_counterexample:
  "processArray 0 0 3037000501 10 (initArray 10) = Inr 0 \<and> is_prime (0 + T 2) \<and>
   (2::int) \<le> 3037000501 - 1"
proof -
  have "processArray 0 0 3037000501 10 (initArray 10) = Inr 0" by code_simp
  moreover have "is_prime (0 + T 2)" by (simp add: T_def prime_eval)
  ultimately show ?thesis by simp
qed

text \<open>
  C1, amended. For a window offset \<open>\<ge> 0\<close>, a window size \<open>\<ge> 1\<close> and a sequence length
  \<open>n \<ge> 1\<close>, as long as the run stays in the range of \<^verbatim>\<open>int_fast64_t\<close> (the first prime at or
  after \<open>offset + size + n (n - 1)\<close> is below \<open>2 ^ 63\<close>, so that neither the product
  \<^verbatim>\<open>n*(n+1)\<close> after \<^verbatim>\<open>n--\<close>, nor the hint of the seek, nor a prime the loop fetches
  overflows),
  \<^verbatim>\<open>processArray\<close> called with \<^verbatim>\<open>startValueIndex\<close> 0 on a freshly initialised array returns
  (without any access out of bounds) a value \<open>r\<close> such that: \<open>r\<close> is \<open>-1\<close> exactly when every
  index of the window has a prime among its terms \<open>offset + k + T i\<close>, \<open>0 \<le> i \<le> n - 1\<close>;
  otherwise \<open>r\<close> lies in \<open>[0, size)\<close>, none of the \<open>n\<close> terms of \<open>offset + r\<close> is prime (so
  the early stop never hands back an index a larger prime would still cross out), and
  every smaller index has a prime term.
\<close>

theorem processArray_least_valid_index:
  assumes "0 \<le> offset" and "1 \<le> sz" and "1 \<le> n"
    and "next_prime (offset + sz + n * (n - 1)) < 2 ^ 63"
  shows "\<exists>r. processArray offset 0 n sz (initArray sz) = Inr r \<and>
           ((r = - 1) =
              (\<forall>k. 0 \<le> k \<and> k < sz \<longrightarrow> (\<exists>i. 0 \<le> i \<and> i \<le> n - 1 \<and> is_prime (offset + k + T i)))) \<and>
           (r \<noteq> - 1 \<longrightarrow>
              0 \<le> r \<and> r < sz \<and>
              (\<forall>i. 0 \<le> i \<and> i \<le> n - 1 \<longrightarrow> \<not> is_prime (offset + r + T i)) \<and>
              (\<forall>k. 0 \<le> k \<and> k < r \<longrightarrow> (\<exists>i. 0 \<le> i \<and> i \<le> n - 1 \<and> is_prime (offset + k + T i))))"
proof -
  have bound: "offset + sz + n * (n - 1) < 2 ^ 63"
    using assms(4) next_prime_ge [of "offset + sz + n * (n - 1)"] by simp
  have pos: "0 \<le> n * (n - 1)" using assms(3) by simp
  have prod: "n * (n - 1) < 2 ^ 63" using bound pos assms(1,2) by simp
  have "T (n - 1) \<le> n * (n - 1)" using T_le_product [of "n - 1"] assms(3) by simp
  then have "sz + T (n - 1) \<le> 2 ^ 63" using bound assms(1) by simp
  from processArray_spec [OF assms(3,2) prod range_from_window [OF this], of offset]
  obtain r where r: "processArray offset 0 n sz (initArray sz) = Inr r"
    "engineResult offset n sz r" by blast
  have v: "validStart A n \<longleftrightarrow> (\<forall>i. 0 \<le> i \<and> i \<le> n - 1 \<longrightarrow> \<not> is_prime (A + T i))" for A
    unfolding validStart_iff by (metis zle_diff1_eq)
  have nv: "\<not> validStart A n \<longleftrightarrow> (\<exists>i. 0 \<le> i \<and> i \<le> n - 1 \<and> is_prime (A + T i))" for A
    unfolding v by blast
  from r(2) consider
    (none) "r = - 1" "\<forall>k. 0 \<le> k \<and> k < sz \<longrightarrow> \<not> validStart (offset + k) n"
    | (found) "0 \<le> r" "r < sz" "validStart (offset + r) n"
      "\<forall>k. 0 \<le> k \<and> k < r \<longrightarrow> \<not> validStart (offset + k) n"
    unfolding engineResult_def by blast
  then show ?thesis
  proof cases
    case none
    then show ?thesis using r(1) unfolding nv by (intro exI [of _ r]) simp
  next
    case found
    have "\<not> (\<forall>k. 0 \<le> k \<and> k < sz \<longrightarrow> \<not> validStart (offset + k) n)"
      using found(1-3) by blast
    moreover have "r \<noteq> - 1" using found(1) by simp
    ultimately show ?thesis
      using r(1) found unfolding nv v [symmetric] by (intro exI [of _ r]) simp
  qed
qed

theorem processArray_least_valid_index_witness:
  "next_prime (1 + 10 + 2 * (2 - 1)) < 2 ^ 63 \<and>
   processArray 1 0 2 10 (initArray 10) = Inr 7 \<and> \<not> is_prime (1 + 7 + T 0) \<and>
   \<not> is_prime (1 + 7 + T 1) \<and> is_prime (1 + 6 + T 0)"
proof -
  have fits: "next_prime (1 + 10 + 2 * (2 - 1)) < 2 ^ 63" by code_simp
  have run: "processArray 1 0 2 10 (initArray 10) = Inr 7" by code_simp
  from processArray_least_valid_index [of 1 10 2, OF _ _ _ fits]
  obtain r where r: "processArray 1 0 2 10 (initArray 10) = Inr r"
    "r \<noteq> - 1 \<longrightarrow> (\<forall>i. 0 \<le> i \<and> i \<le> 2 - 1 \<longrightarrow> \<not> is_prime (1 + r + T i))"
    by auto
  from r(1) run have "r = 7" by simp
  with r(2) have "\<forall>i. 0 \<le> i \<and> i \<le> 1 \<longrightarrow> \<not> is_prime (1 + 7 + T i)" by simp
  then have "\<not> is_prime (1 + 7 + T 0)" "\<not> is_prime (1 + 7 + T 1)" by auto
  moreover have "is_prime (1 + 6 + T 0)" by (simp add: prime_eval)
  ultimately show ?thesis using run fits by simp
qed

text \<open>
  C7 as the spec has it would stop the crossing out at term index \<open>n - 2\<close>. For \<open>n = 2\<close>,
  offset 0, a window of 10 cells and the prime 5, the loop crosses out the cells 5 and 4;
  cell 4 is \<open>5 - T 1\<close>, the candidate whose term of index \<open>n - 1 = 1\<close> is the prime, and it
  is \<open>5 - T i\<close> for no \<open>i \<le> n - 2\<close>.
\<close>

theorem ruleOut_last_term_counterexample:
  "ruleOut 0 (2 - 1) (5 - 0) 10 (initArray 10) =
     Inr [True, True, True, True, False, False, True, True, True, True] \<and>
   (4::int) = 5 - T (2 - 1) \<and>
   \<not> (\<exists>i. 0 \<le> i \<and> i \<le> 2 - 2 \<and> (4::int) = 5 - T i)"
proof -
  have "ruleOut 0 (2 - 1) (5 - 0) 10 (initArray 10) =
     Inr [True, True, True, True, False, False, True, True, True, True]"
    by code_simp
  moreover have "(4::int) = 5 - T (2 - 1)" by (simp add: T_def)
  moreover have "\<not> (\<exists>i. 0 \<le> i \<and> i \<le> 2 - 2 \<and> (4::int) = 5 - T i)"
  proof
    assume "\<exists>i. 0 \<le> i \<and> i \<le> 2 - 2 \<and> (4::int) = 5 - T i"
    then obtain i :: int where "0 \<le> i" "i \<le> 2 - 2" "(4::int) = 5 - T i" by blast
    then have "i = 0" "(4::int) = 5 - T i" by auto
    then show False by simp
  qed
  ultimately show ?thesis by blast
qed

text \<open>
  C7, amended. Processing one prime \<open>p\<close> (the inner loop of \<^verbatim>\<open>processArray\<close>, entered with
  \<open>i = 0\<close>, the decremented \<open>n - 1\<close> and \<^verbatim>\<open>offsetPrime = p - offset\<close>) crosses out exactly
  the cells of the window whose value \<open>offset + k\<close> is \<open>p - T i\<close> for a term index \<open>i\<close> from
  0 up to \<open>n - 1\<close>, the last term included, and changes no other cell.
\<close>

theorem ruleOut_crosses_every_term:
  assumes "1 \<le> n" and "length numberArray = nat sz"
  shows "\<exists>a'. ruleOut 0 (n - 1) (p - offset) sz numberArray = Inr a' \<and>
           length a' = length numberArray \<and>
           (\<forall>k. 0 \<le> k \<and> k < sz \<longrightarrow>
              a' ! nat k =
                (numberArray ! nat k \<and> \<not> (\<exists>i. 0 \<le> i \<and> i \<le> n - 1 \<and> offset + k = p - T i)))"
proof -
  have Tm: "T (0 - 1) = 0" by (simp add: T_def)
  have eq: "k = p - offset - (T j - 0) \<longleftrightarrow> offset + k = p - T j" for k j by auto
  from ruleOut_spec [of 0 numberArray sz "n - 1" "p - offset"] assms(2)
  show ?thesis unfolding Tm eq by simp
qed

theorem ruleOut_crosses_every_term_witness:
  "\<exists>a'. ruleOut 0 (2 - 1) (5 - 0) 10 (initArray 10) = Inr a' \<and> \<not> a' ! nat 4 \<and> a' ! nat 3"
proof -
  have len: "length (initArray 10) = nat 10" by (simp add: initArray_def)
  from ruleOut_crosses_every_term [of 2 "initArray 10" 10 5 0, OF _ len]
  obtain a' where a': "ruleOut 0 (2 - 1) (5 - 0) 10 (initArray 10) = Inr a'"
    "\<forall>k. 0 \<le> k \<and> k < 10 \<longrightarrow> a' ! nat k =
        (initArray 10 ! nat k \<and> \<not> (\<exists>i. 0 \<le> i \<and> i \<le> 2 - 1 \<and> 0 + k = 5 - T i))"
    by auto
  have "\<exists>i. 0 \<le> i \<and> i \<le> 2 - 1 \<and> 0 + (4::int) = 5 - T i"
    by (rule exI [of _ 1]) (simp add: T_def)
  with a'(2) [rule_format, of 4] have "\<not> a' ! nat 4" by fastforce
  moreover have "\<not> (\<exists>i. 0 \<le> i \<and> i \<le> 2 - 1 \<and> 0 + (3::int) = 5 - T i)"
  proof
    assume "\<exists>i. 0 \<le> i \<and> i \<le> 2 - 1 \<and> 0 + (3::int) = 5 - T i"
    then obtain i :: int where i: "0 \<le> i" "i \<le> 2 - 1" "0 + (3::int) = 5 - T i" by blast
    then have "i = 0 \<or> i = 1" by auto
    with i(3) show False by (auto simp: T_def)
  qed
  with a'(2) [rule_format, of 3] have "a' ! nat 3" by (simp add: initArray_def)
  ultimately show ?thesis using a'(1) by blast
qed

section \<open>The table of primes\<close>

lemma markPrimes_spec:
  "length a = nat primeSize \<Longrightarrow>
   (\<forall>j. 0 \<le> j \<and> j < primeSize \<longrightarrow> a ! nat j = (is_prime (offset + j) \<and> offset + j < it)) \<Longrightarrow>
   offset \<le> it \<Longrightarrow>
   \<exists>a'. markPrimes offset primeSize it a = Inr a' \<and> length a' = length a \<and>
     (\<forall>j. 0 \<le> j \<and> j < primeSize \<longrightarrow> a' ! nat j = is_prime (offset + j))"
proof (induction "nat (offset + primeSize - it)" arbitrary: it a rule: less_induct)
  case less
  note len = less.prems(1) and cells = less.prems(2) and off = less.prems(3)
  define p where "p = next_prime it"
  have nx: "primesieve_next_prime it = (p, p + 1)"
    by (simp add: primesieve_next_prime_def p_def Let_def)
  have ge: "it \<le> p" unfolding p_def by (rule next_prime_ge)
  have pr: "is_prime p" unfolding p_def by (rule next_prime_prime)
  have gap: "\<not> is_prime q" if "it \<le> q" "q < p" for q
    using that no_prime_before_next unfolding p_def by blast
  show ?case
  proof (cases "p - offset < primeSize")
    case False
    then have r: "markPrimes offset primeSize it a = Inr a"
      by (simp add: markPrimes.simps [of offset primeSize it a] nx)
    have "a ! nat j = is_prime (offset + j)" if j: "0 \<le> j" "j < primeSize" for j
    proof -
      have "offset + j < p" using False j by simp
      then have "is_prime (offset + j) \<longrightarrow> offset + j < it"
        using gap [of "offset + j"] by (meson not_less)
      with cells j show ?thesis by auto
    qed
    with r show ?thesis by auto
  next
    case True
    with off ge len have inb: "0 \<le> p - offset" "p - offset < int (length a)" by auto
    define b where "b = a[nat (p - offset) := True]"
    have w: "writeCell a (p - offset) True = Inr b"
      using inb by (simp add: writeCell_def b_def)
    with True have r: "markPrimes offset primeSize it a = markPrimes offset primeSize (p + 1) b"
      by (simp add: markPrimes.simps [of offset primeSize it a] nx)
    have "\<exists>a'. markPrimes offset primeSize (p + 1) b = Inr a' \<and> length a' = length b \<and>
       (\<forall>j. 0 \<le> j \<and> j < primeSize \<longrightarrow> a' ! nat j = is_prime (offset + j))"
    proof (rule less.hyps)
      show "nat (offset + primeSize - (p + 1)) < nat (offset + primeSize - it)"
        using True ge by simp
      show "length b = nat primeSize" using len by (simp add: b_def)
      show "offset \<le> p + 1" using off ge by simp
      show "\<forall>j. 0 \<le> j \<and> j < primeSize \<longrightarrow>
         b ! nat j = (is_prime (offset + j) \<and> offset + j < p + 1)"
      proof (intro allI impI)
        fix j assume j: "0 \<le> j \<and> j < primeSize"
        show "b ! nat j = (is_prime (offset + j) \<and> offset + j < p + 1)"
        proof (cases "j = p - offset")
          case True
          with inb pr show ?thesis by (simp add: b_def)
        next
          case False
          with j inb have "b ! nat j = a ! nat j" by (simp add: b_def eq_nat_nat_iff)
          also have "\<dots> = (is_prime (offset + j) \<and> offset + j < it)" using cells j by simp
          also have "\<dots> = (is_prime (offset + j) \<and> offset + j < p + 1)"
          proof (cases "offset + j < it")
            case True
            with ge show ?thesis by auto
          next
            case far: False
            then have "it \<le> offset + j" by simp
            from gap [OF this] False far ge show ?thesis
              by (cases "offset + j < p") auto
          qed
          finally show ?thesis .
        qed
      qed
    qed
    with r show ?thesis by (simp add: b_def)
  qed
qed

lemma fillArrayOfPrimes_spec:
  assumes "0 \<le> memSize + ubd"
  shows "\<exists>a. fillArrayOfPrimes offset memSize ubd = Inr a \<and> length a = nat (memSize + ubd) \<and>
     (\<forall>j. 0 \<le> j \<and> j < memSize + ubd \<longrightarrow> a ! nat j = is_prime (offset + j))"
proof -
  have "\<exists>a'. markPrimes offset (memSize + ubd) offset (replicate (nat (memSize + ubd)) False) = Inr a' \<and>
      length a' = length (replicate (nat (memSize + ubd)) False) \<and>
      (\<forall>j. 0 \<le> j \<and> j < memSize + ubd \<longrightarrow> a' ! nat j = is_prime (offset + j))"
    by (rule markPrimes_spec) auto
  then show ?thesis
    using assms by (simp add: fillArrayOfPrimes_def primesieve_jump_to_def Let_def)
qed

lemma testTerms_step:
  assumes "i < n" and "0 \<le> d + T i" and "d + T i < int (length a)"
  shows "testTerms a i (d + T (i - 1)) n =
     (if a ! nat (d + T i) then Inr False else testTerms a (i + 1) (d + T (i + 1 - 1)) n)"
proof -
  have vo: "d + T (i - 1) + i = d + T i" using T_pred [of i] by simp
  have rd: "readCell a (d + T i) = Inr (a ! nat (d + T i))"
    using assms(2,3) by (simp add: readCell_def)
  have "testTerms a i (d + T (i - 1)) n =
     (if a ! nat (d + T i) then Inr False else testTerms a (i + 1) (d + T i) n)"
    by (subst testTerms.simps) (simp only: assms(1) if_True Let_def vo rd sum.case)
  then show ?thesis by simp
qed

lemma testTerms_inbounds:
  "0 \<le> i \<Longrightarrow> 0 \<le> d \<Longrightarrow> d + T (n - 1) < int (length a) \<Longrightarrow>
   \<exists>res. testTerms a i (d + T (i - 1)) n = Inr res"
proof (induction "nat (n - i)" arbitrary: i)
  case 0
  then have "\<not> i < n" by simp
  then show ?case by (auto simp: testTerms.simps [of a i])
next
  case (Suc m)
  then have lt: "i < n" by simp
  have "T i \<le> T (n - 1)" using lt Suc.prems(1) by (intro T_mono_step) auto
  moreover have "0 \<le> T i" using Suc.prems(1) by (rule T_nonneg)
  ultimately have inb: "0 \<le> d + T i" "d + T i < int (length a)"
    using Suc.prems(2,3) by auto
  have "\<exists>res. testTerms a (i + 1) (d + T (i + 1 - 1)) n = Inr res"
    using Suc.hyps(2) Suc.prems by (intro Suc.hyps(1)) auto
  then show ?case unfolding testTerms_step [OF lt inb] by auto
qed

text \<open>On a table that marks the primes from \<open>offset\<close> on, the test computes validity.\<close>

lemma testTerms_spec:
  "0 \<le> i \<Longrightarrow> 0 \<le> d \<Longrightarrow> d + T (n - 1) < int (length a) \<Longrightarrow>
   (\<forall>j. 0 \<le> j \<and> j < int (length a) \<longrightarrow> a ! nat j = is_prime (offset + j)) \<Longrightarrow>
   testTerms a i (d + T (i - 1)) n = Inr (noPrimeTermFrom (offset + d) i n)"
proof (induction "nat (n - i)" arbitrary: i)
  case 0
  then have "\<not> i < n" by simp
  then show ?case
    by (simp add: testTerms.simps [of a i] noPrimeTermFrom.simps [of "offset + d" i])
next
  case (Suc m)
  then have lt: "i < n" by simp
  have "T i \<le> T (n - 1)" using lt Suc.prems(1) by (intro T_mono_step) auto
  moreover have "0 \<le> T i" using Suc.prems(1) by (rule T_nonneg)
  ultimately have inb: "0 \<le> d + T i" "d + T i < int (length a)"
    using Suc.prems(2,3) by auto
  have cell: "a ! nat (d + T i) = is_prime (offset + d + T i)"
    using Suc.prems(4) inb by (simp add: add.assoc)
  have "testTerms a (i + 1) (d + T (i + 1 - 1)) n = Inr (noPrimeTermFrom (offset + d) (i + 1) n)"
    using Suc.hyps(2) Suc.prems by (intro Suc.hyps(1)) auto
  then show ?case
    unfolding testTerms_step [OF lt inb] cell
    by (simp add: noPrimeTermFrom.simps [of "offset + d" i] lt)
qed

lemma isCorrectValue_inbounds:
  assumes "1 \<le> n" and "offset \<le> v" and "v < offset + memSize"
    and "length primeArray = nat (memSize + n * (n + 1) div 2)"
  shows "\<exists>res. isCorrectValue primeArray offset v n = Inr res"
proof -
  have "T (n - 1) \<le> T n" using assms(1) by (intro T_mono_step) auto
  then have "v - offset + T (n - 1) < int (length primeArray)"
    using assms T_nonneg [of n] by (simp add: T_eq)
  from testTerms_inbounds [of 0 "v - offset" n primeArray, OF _ _ this] assms(2)
  show ?thesis by (simp add: isCorrectValue_def T_def)
qed

lemma isCorrectValue_spec:
  assumes "1 \<le> n" and "offset \<le> v" and "v - offset + T (n - 1) < int (length primeArray)"
    and "\<forall>j. 0 \<le> j \<and> j < int (length primeArray) \<longrightarrow> primeArray ! nat j = is_prime (offset + j)"
  shows "isCorrectValue primeArray offset v n = Inr (validStart v n)"
  using testTerms_spec [of 0 "v - offset" n primeArray offset] assms
  by (simp add: isCorrectValue_def validStart_def T_def)

section \<open>The search of program 1 across windows\<close>

lemma leastValidFrom_unique: "leastValidFrom s n v \<Longrightarrow> leastValidFrom s n v' \<Longrightarrow> v = v'"
  unfolding leastValidFrom_def by (meson not_less_iff_gr_or_eq)

lemma leastValidFrom_skip:
  assumes "leastValidFrom (s + sz) n v"
    and "\<And>u. s \<le> u \<Longrightarrow> u < s + sz \<Longrightarrow> \<not> validStart u n" and "1 \<le> sz"
  shows "leastValidFrom s n v"
  unfolding leastValidFrom_def
proof (intro conjI allI impI)
  from assms(1,3) show "s \<le> v" "validStart v n" by (auto simp: leastValidFrom_def)
  fix u assume u: "s \<le> u \<and> u < v"
  show "\<not> validStart u n"
  proof (cases "u < s + sz")
    case True
    with u assms(2) show ?thesis by blast
  next
    case False
    with u assms(1) show ?thesis by (auto simp: leastValidFrom_def)
  qed
qed

text \<open>The search returns the least valid start value when a valid start value \<open>A\<close> lies
  ahead within the range: no window it visits begins after \<open>A\<close>.\<close>

lemma look4StartValue_spec:
  assumes "1 \<le> n" and "1 \<le> sz" and "n * (n - 1) < 2 ^ 63"
  shows "validStart A n \<Longrightarrow> s \<le> A \<Longrightarrow> A - s + T (n - 1) < 2 ^ 63 \<Longrightarrow>
     \<exists>v. look4StartValue s n sz = Some (Inr v) \<and> leastValidFrom s n v"
proof (induction "nat (A - s)" arbitrary: s rule: less_induct)
  case less
  from processArray_spec [OF assms range_from_valid [OF less.prems]]
  obtain r where r: "processArray s 0 n sz (initArray sz) = Inr r" "engineResult s n sz r"
    by blast
  from r(2) consider
    (none) "r = - 1" "\<forall>k. 0 \<le> k \<and> k < sz \<longrightarrow> \<not> validStart (s + k) n"
    | (found) "0 \<le> r" "r < sz" "validStart (s + r) n"
      "\<forall>k. 0 \<le> k \<and> k < r \<longrightarrow> \<not> validStart (s + k) n"
    unfolding engineResult_def by blast
  then show ?case
  proof cases
    case found
    have "look4StartValue s n sz = Some (Inr (r + s))"
      using r(1) found(1) by (subst look4StartValue.simps) simp
    moreover have "leastValidFrom s n (r + s)"
      unfolding leastValidFrom_def
    proof (intro conjI allI impI)
      show "s \<le> r + s" using found(1) by simp
      show "validStart (r + s) n" using found(3) by (simp add: add.commute)
      fix u assume "s \<le> u \<and> u < r + s"
      then have "0 \<le> u - s \<and> u - s < r" by auto
      with found(4) have "\<not> validStart (s + (u - s)) n" by blast
      then show "\<not> validStart u n" by simp
    qed
    ultimately show ?thesis by blast
  next
    case none
    have window: "\<not> validStart u n" if "s \<le> u" "u < s + sz" for u
    proof -
      from that have "0 \<le> u - s \<and> u - s < sz" by auto
      with none(2) have "\<not> validStart (s + (u - s)) n" by blast
      then show ?thesis by simp
    qed
    with less.prems have far: "s + sz \<le> A" by (meson not_less)
    have step: "look4StartValue s n sz = look4StartValue (s + sz) n sz"
      using r(1) none(1) by (subst look4StartValue.simps) simp
    have "nat (A - (s + sz)) < nat (A - s)" using far assms(2) by simp
    moreover have "A - (s + sz) + T (n - 1) < 2 ^ 63" using less.prems(3) assms(2) by simp
    ultimately obtain v where v: "look4StartValue (s + sz) n sz = Some (Inr v)"
      "leastValidFrom (s + sz) n v"
      using less.hyps [OF _ less.prems(1) far] by blast
    have "leastValidFrom s n v"
      using v(2) window assms(2) by (rule leastValidFrom_skip)
    with v(1) step show ?thesis by auto
  qed
qed

section \<open>The search of program 2\<close>

text \<open>The loop of \<^verbatim>\<open>main\<close> is this scan, repeated on the next table when it returns \<open>-1\<close>.\<close>

lemma mainSearch_scanWindow:
  "offset \<le> startValue \<Longrightarrow> startValue \<le> offset + memSize \<Longrightarrow>
   mainSearch primeArray offset startValue n memSize ubd =
     (case scanWindow primeArray offset startValue n memSize of
        Inl e \<Rightarrow> Some (Inl e)
      | Inr r \<Rightarrow>
          if r \<ge> 0 then Some (Inr (offset + r))
          else mainSearch primeArray offset (offset + memSize) n memSize ubd)"
proof (induction "nat (offset + memSize - startValue)" arbitrary: startValue)
  case 0
  then have "startValue = offset + memSize" by simp
  then show ?case by (simp add: scanWindow.simps [of primeArray offset])
next
  case (Suc m)
  then have lt: "\<not> startValue - offset \<ge> memSize" by simp
  then have rf: "refill primeArray offset startValue memSize ubd = Inr (primeArray, offset)"
    by (simp add: refill_def)
  have IH: "mainSearch primeArray offset (startValue + 1) n memSize ubd =
     (case scanWindow primeArray offset (startValue + 1) n memSize of
        Inl e \<Rightarrow> Some (Inl e)
      | Inr r \<Rightarrow>
          if r \<ge> 0 then Some (Inr (offset + r))
          else mainSearch primeArray offset (offset + memSize) n memSize ubd)"
    using Suc.hyps(2) Suc.prems lt by (intro Suc.hyps(1)) auto
  show ?case
  proof (cases "isCorrectValue primeArray offset startValue n")
    case (Inl e)
    with lt rf show ?thesis
      by (subst mainSearch.simps) (simp add: scanWindow.simps [of primeArray offset startValue])
  next
    case (Inr res)
    show ?thesis
    proof (cases res)
      case True
      with Inr lt rf Suc.prems(1) show ?thesis
        by (subst mainSearch.simps)
          (simp add: scanWindow.simps [of primeArray offset startValue])
    next
      case False
      with Inr lt rf have "mainSearch primeArray offset startValue n memSize ubd =
          mainSearch primeArray offset (startValue + 1) n memSize ubd"
        by (subst mainSearch.simps) simp
      moreover from False Inr lt have "scanWindow primeArray offset startValue n memSize =
          scanWindow primeArray offset (startValue + 1) n memSize"
        by (simp add: scanWindow.simps [of primeArray offset startValue])
      ultimately show ?thesis using IH by simp
    qed
  qed
qed

text \<open>Without overflow of the product, \<^verbatim>\<open>upperBoundDiff\<close> is \<open>T n\<close>.\<close>

lemma upperBoundDiff_T:
  assumes "0 \<le> n" and "n * (n + 1) < 2 ^ 63"
  shows "upperBoundDiff n = T n"
proof -
  have pos: "0 \<le> n * (n + 1)" using assms(1) by simp
  have "n + 1 < 2 ^ 63"
  proof (cases "n = 0")
    case True
    then show ?thesis by simp
  next
    case False
    with assms(1) have "1 * (n + 1) \<le> n * (n + 1)" by (intro mult_right_mono) auto
    with assms(2) show ?thesis by simp
  qed
  then have w1: "wrap64 (n + 1) = n + 1" using assms(1) by (intro wrap64_id) auto
  have w2: "wrap64 (n * (n + 1)) = n * (n + 1)" using pos assms(2) by (intro wrap64_id) auto
  show ?thesis
    by (simp only: upperBoundDiff_def w1 w2 truncDiv_nonneg [OF pos] T_def)
qed

lemma fillArrayOfPrimes_table:
  assumes "0 \<le> n" and "0 \<le> memSize"
  shows "\<exists>a. fillArrayOfPrimes offset memSize (T n) = Inr a \<and> primeTable a offset n memSize"
proof -
  have "0 \<le> T n" using assms(1) by (rule T_nonneg)
  with assms(2) have "0 \<le> memSize + T n" by simp
  from fillArrayOfPrimes_spec [OF this, of offset] this
  show ?thesis unfolding primeTable_def by auto
qed

lemma isCorrectValue_table:
  assumes "1 \<le> n" and "primeTable a offset n memSize" and "offset \<le> v"
    and "v - offset < memSize \<or> (v = offset \<and> 0 \<le> memSize)"
  shows "isCorrectValue a offset v n = Inr (validStart v n)"
proof (rule isCorrectValue_spec [OF assms(1,3)])
  have "T n = T (n - 1) + n" using T_pred [of n] by simp
  with assms show "v - offset + T (n - 1) < int (length a)"
    unfolding primeTable_def by auto
  show "\<forall>j. 0 \<le> j \<and> j < int (length a) \<longrightarrow> a ! nat j = is_prime (offset + j)"
    using assms(2) unfolding primeTable_def by simp
qed

lemma scanWindow_spec:
  assumes "1 \<le> n" and "primeTable a offset n memSize"
  shows "offset \<le> sv \<Longrightarrow> (\<forall>u. offset \<le> u \<and> u < sv \<longrightarrow> \<not> validStart u n) \<Longrightarrow>
     \<exists>r. scanWindow a offset sv n memSize = Inr r \<and> engineResult offset n memSize r"
proof (induction "nat (offset + memSize - sv)" arbitrary: sv)
  case 0
  then have ge: "sv - offset \<ge> memSize" by simp
  then have "scanWindow a offset sv n memSize = Inr (- 1)"
    by (simp add: scanWindow.simps [of a offset sv])
  moreover have "\<not> validStart (offset + k) n" if "0 \<le> k" "k < memSize" for k
    using "0.prems"(2) that ge by auto
  ultimately show ?case unfolding engineResult_def by auto
next
  case (Suc m)
  then have lt: "sv - offset < memSize" by simp
  with isCorrectValue_table [OF assms Suc.prems(1)]
  have ic: "isCorrectValue a offset sv n = Inr (validStart sv n)" by simp
  show ?case
  proof (cases "validStart sv n")
    case True
    with ic lt have "scanWindow a offset sv n memSize = Inr (sv - offset)"
      by (simp add: scanWindow.simps [of a offset sv])
    moreover have "engineResult offset n memSize (sv - offset)"
      unfolding engineResult_def using True lt Suc.prems by auto
    ultimately show ?thesis by blast
  next
    case False
    with ic lt have "scanWindow a offset sv n memSize = scanWindow a offset (sv + 1) n memSize"
      by (simp add: scanWindow.simps [of a offset sv])
    moreover have "\<exists>r. scanWindow a offset (sv + 1) n memSize = Inr r \<and>
        engineResult offset n memSize r"
    proof (rule Suc.hyps(1))
      show "m = nat (offset + memSize - (sv + 1))" using Suc.hyps(2) by simp
      show "offset \<le> sv + 1" using Suc.prems(1) by simp
      show "\<forall>u. offset \<le> u \<and> u < sv + 1 \<longrightarrow> \<not> validStart u n"
        using Suc.prems(2) False by (metis zle_add1_eq_le order_le_less)
    qed
    ultimately show ?thesis by simp
  qed
qed

lemma forwardWindow_spec:
  assumes "1 \<le> n" and "0 \<le> memSize" and "n * (n + 1) < 2 ^ 63"
  shows "\<exists>r. forwardWindow offset n memSize = Inr r \<and> engineResult offset n memSize r"
proof -
  have ubd: "upperBoundDiff n = T n" using assms(1,3) by (intro upperBoundDiff_T) auto
  from fillArrayOfPrimes_table [of n memSize offset] assms
  obtain a where a: "fillArrayOfPrimes offset memSize (T n) = Inr a" "primeTable a offset n memSize"
    by auto
  have "\<exists>r. scanWindow a offset offset n memSize = Inr r \<and> engineResult offset n memSize r"
    by (rule scanWindow_spec [OF assms(1) a(2)]) auto
  then show ?thesis by (simp add: forwardWindow_def ubd a(1))
qed

lemma mainSearch_spec:
  assumes "1 \<le> n" and "0 \<le> memSize"
  shows "validStart A n \<Longrightarrow> sv \<le> A \<Longrightarrow> primeTable a offset n memSize \<Longrightarrow> offset \<le> sv \<Longrightarrow>
     \<exists>v. mainSearch a offset sv n memSize (T n) = Some (Inr v) \<and> leastValidFrom sv n v"
proof (induction "nat (A - sv)" arbitrary: sv a offset rule: less_induct)
  case less
  have "\<exists>a' offset'. refill a offset sv memSize (T n) = Inr (a', offset') \<and>
      primeTable a' offset' n memSize \<and> offset' \<le> sv \<and>
      (sv - offset' < memSize \<or> (sv = offset' \<and> 0 \<le> memSize))"
  proof (cases "sv - offset \<ge> memSize")
    case True
    from fillArrayOfPrimes_table [of n memSize sv] assms
    obtain a' where "fillArrayOfPrimes sv memSize (T n) = Inr a'" "primeTable a' sv n memSize"
      by auto
    with True assms(2) show ?thesis by (auto simp: refill_def)
  next
    case False
    with less.prems show ?thesis by (auto simp: refill_def)
  qed
  then obtain a' offset' where rf: "refill a offset sv memSize (T n) = Inr (a', offset')"
    and tab: "primeTable a' offset' n memSize" and le: "offset' \<le> sv"
    and inw: "sv - offset' < memSize \<or> (sv = offset' \<and> 0 \<le> memSize)"
    by blast
  have ic: "isCorrectValue a' offset' sv n = Inr (validStart sv n)"
    using assms(1) tab le inw by (rule isCorrectValue_table)
  show ?case
  proof (cases "validStart sv n")
    case True
    with rf ic have "mainSearch a offset sv n memSize (T n) = Some (Inr sv)"
      by (subst mainSearch.simps) simp
    moreover have "leastValidFrom sv n sv" using True by (auto simp: leastValidFrom_def)
    ultimately show ?thesis by blast
  next
    case False
    with rf ic have step: "mainSearch a offset sv n memSize (T n) =
        mainSearch a' offset' (sv + 1) n memSize (T n)"
      by (subst mainSearch.simps) simp
    from False less.prems(1,2) have "sv \<noteq> A" by auto
    with less.prems(2) have next_le: "sv + 1 \<le> A" by simp
    then have "nat (A - (sv + 1)) < nat (A - sv)" by simp
    from less.hyps [OF this less.prems(1) next_le tab] le
    obtain v where v: "mainSearch a' offset' (sv + 1) n memSize (T n) = Some (Inr v)"
      "leastValidFrom (sv + 1) n v" by auto
    have "leastValidFrom sv n v"
      using leastValidFrom_skip [of sv 1 n v] v(2) False by (simp add: order_antisym_conv)
    with v(1) step show ?thesis by auto
  qed
qed

lemma main2_spec:
  assumes "1 \<le> n" and "0 \<le> memSize" and "n * (n + 1) < 2 ^ 63"
    and "validStart A n" and "0 \<le> A"
  shows "\<exists>v. main2 n memSize = Some (Inr v) \<and> leastValidFrom 0 n v"
proof -
  have ubd: "upperBoundDiff n = T n" using assms(1,3) by (intro upperBoundDiff_T) auto
  from fillArrayOfPrimes_table [of n memSize 0] assms
  obtain a where a: "fillArrayOfPrimes 0 memSize (T n) = Inr a" "primeTable a 0 n memSize"
    by auto
  from mainSearch_spec [OF assms(1,2,4,5) a(2)]
  show ?thesis by (simp add: main2_def ubd a(1))
qed

section \<open>Claims about the two strategies and the search across windows\<close>

lemma in_range_facts:
  assumes "1 \<le> n" and "0 \<le> x" and "next_prime (x + n * (n + 1)) < 2 ^ 63"
  shows "n * (n + 1) < 2 ^ 63" and "n * (n - 1) < 2 ^ 63" and "x + T (n - 1) < 2 ^ 63"
proof -
  have bound: "x + n * (n + 1) < 2 ^ 63"
    using assms(3) next_prime_ge [of "x + n * (n + 1)"] by simp
  have le: "n * (n - 1) \<le> n * (n + 1)" using assms(1) by (intro mult_left_mono) auto
  have pos: "0 \<le> n * (n - 1)" using assms(1) by simp
  have "T (n - 1) \<le> n * (n - 1)" using T_le_product [of "n - 1"] assms(1) by simp
  with bound le pos assms(2)
  show "n * (n + 1) < 2 ^ 63" "n * (n - 1) < 2 ^ 63" "x + T (n - 1) < 2 ^ 63" by auto
qed

text \<open>
  C2 as the spec has it speaks of every \<open>n \<ge> 1\<close>. For \<open>n = 3037000501\<close> on the window
  \<open>[0, 10)\<close> the two strategies differ: the wrapped product makes \<^verbatim>\<open>processArray\<close>
  return index 0, and makes the table size of program 2 negative, so that its
  \<^verbatim>\<open>malloc\<close> fails.
\<close>

theorem backward_forward_overflow_counterexample:
  "processArray 0 0 3037000501 10 (initArray 10) = Inr 0 \<and>
   forwardWindow 0 3037000501 10 = Inl AllocationFailed"
proof -
  have "processArray 0 0 3037000501 10 (initArray 10) = Inr 0" by code_simp
  moreover have "forwardWindow 0 3037000501 10 = Inl AllocationFailed" by code_simp
  ultimately show ?thesis by blast
qed

text \<open>
  C2, amended. For \<open>n \<ge> 1\<close> and a window \<open>[offset, offset + size)\<close> with \<open>offset \<ge> 0\<close> and
  \<open>size \<ge> 1\<close>, as long as the runs stay in the range of \<^verbatim>\<open>int_fast64_t\<close> (the first prime at or after
  \<open>offset + size + n (n + 1)\<close> is below \<open>2 ^ 63\<close>, which keeps the products of both programs,
  the table size and every prime fetched in range), the backward strategy
  (\<^verbatim>\<open>processArray\<close> on a fresh array) and the forward strategy (\<^verbatim>\<open>fillArrayOfPrimes\<close>, then
  \<^verbatim>\<open>isCorrectValue\<close> on \<open>offset, offset + 1, ...\<close> up to the end of the window) return the
  same result: the same index, or both \<open>-1\<close> for an exhausted window; neither leaves its
  array.
\<close>

theorem backward_forward_agree:
  assumes "1 \<le> n" and "0 \<le> offset" and "1 \<le> sz"
    and "next_prime (offset + sz + n * (n + 1)) < 2 ^ 63"
  shows "\<exists>r. processArray offset 0 n sz (initArray sz) = Inr r \<and> forwardWindow offset n sz = Inr r"
proof -
  have x: "0 \<le> offset + sz" using assms(2,3) by simp
  note facts = in_range_facts [OF assms(1) x assms(4)]
  have "sz + T (n - 1) \<le> 2 ^ 63" using facts(3) assms(2) by simp
  from processArray_spec [OF assms(1,3) facts(2) range_from_window [OF this], of offset]
  obtain r where r: "processArray offset 0 n sz (initArray sz) = Inr r"
    "engineResult offset n sz r" by blast
  from forwardWindow_spec [OF assms(1) _ facts(1), of sz offset] assms(3)
  obtain r' where r': "forwardWindow offset n sz = Inr r'" "engineResult offset n sz r'" by auto
  from r(2) r'(2) have "r = r'" by (rule engineResult_unique)
  with r(1) r'(1) show ?thesis by simp
qed

theorem backward_forward_agree_witness:
  "next_prime (0 + 10 + 5 * (5 + 1)) < 2 ^ 63 \<and>
   processArray 0 0 5 10 (initArray 10) = Inr (- 1) \<and> forwardWindow 0 5 10 = Inr (- 1)"
proof -
  have fits: "next_prime (0 + 10 + 5 * (5 + 1)) < 2 ^ 63" by code_simp
  have "processArray 0 0 5 10 (initArray 10) = Inr (- 1)" by code_simp
  with backward_forward_agree [of 5 0 10, OF _ _ _ fits] fits show ?thesis by auto
qed

text \<open>
  C6 as the spec has it speaks of every \<open>n \<ge> 1\<close>. For \<open>n = 3037000501\<close>, starting offset 0
  and window size 10 the search loop returns 0, which is not valid: the term
  \<open>0 + T 2 = 3\<close> is prime.
\<close>

theorem look4StartValue_overflow_counterexample:
  "look4StartValue 0 3037000501 10 = Some (Inr 0) \<and> is_prime (0 + T 2) \<and>
   (2::int) < 3037000501"
proof -
  have "look4StartValue 0 3037000501 10 = Some (Inr 0)" by code_simp
  moreover have "is_prime (0 + T 2)" by (simp add: T_def prime_eval)
  ultimately show ?thesis by simp
qed

text \<open>
  C6, amended. Let \<open>n \<ge> 1\<close>, the starting offset be \<open>\<ge> 0\<close>, the window sizes be \<open>\<ge> 1\<close>, and let a
  valid start value \<open>A\<close> at or after the starting offset lie in the range of
  \<^verbatim>\<open>int_fast64_t\<close> (the first prime at or after \<open>A + size + n (n + 1)\<close> is below \<open>2 ^ 63\<close>,
  for each window size used). Then the search loop of \<^verbatim>\<open>look4StartValue\<close> returns, and the
  value it reports is the least valid start value at or after the starting offset; so the
  value is the same for every such window size, however small. The search loop of program
  2 (which starts at 0) returns the least valid start value as well.
\<close>

theorem search_least_valid_any_window:
  assumes "1 \<le> n" and "0 \<le> startValue" and "1 \<le> sz" and "1 \<le> sz'" and "1 \<le> memSize"
    and "validStart A n" and "startValue \<le> A"
    and "next_prime (A + sz + n * (n + 1)) < 2 ^ 63"
    and "next_prime (A + sz' + n * (n + 1)) < 2 ^ 63"
    and "next_prime (A + memSize + n * (n + 1)) < 2 ^ 63"
  shows "\<exists>v. look4StartValue startValue n sz = Some (Inr v) \<and>
           startValue \<le> v \<and>
           (\<forall>i. 0 \<le> i \<and> i < n \<longrightarrow> \<not> is_prime (v + T i)) \<and>
           (\<forall>u. startValue \<le> u \<and> u < v \<longrightarrow> (\<exists>i. 0 \<le> i \<and> i < n \<and> is_prime (u + T i))) \<and>
           look4StartValue startValue n sz' = Some (Inr v) \<and>
           (startValue = 0 \<longrightarrow> main2 n memSize = Some (Inr v))"
proof -
  have A0: "0 \<le> A" using assms(2,7) by simp
  have x: "0 \<le> A + sz" using A0 assms(3) by simp
  note facts = in_range_facts [OF assms(1) x assms(8)]
  have rng: "A - startValue + T (n - 1) < 2 ^ 63" using facts(3) assms(2,3) by simp
  from look4StartValue_spec [OF assms(1,3) facts(2) assms(6,7) rng]
  obtain v where v: "look4StartValue startValue n sz = Some (Inr v)"
    "leastValidFrom startValue n v" by blast
  from look4StartValue_spec [OF assms(1,4) facts(2) assms(6,7) rng]
  obtain v' where v': "look4StartValue startValue n sz' = Some (Inr v')"
    "leastValidFrom startValue n v'" by blast
  from main2_spec [OF assms(1) _ facts(1) assms(6) A0, of memSize] assms(5)
  obtain w where w: "main2 n memSize = Some (Inr w)" "leastValidFrom 0 n w" by auto
  have "v' = v" using v'(2) v(2) by (rule leastValidFrom_unique)
  moreover have "startValue = 0 \<longrightarrow> w = v"
    using w(2) v(2) by (auto intro: leastValidFrom_unique)
  moreover have "startValue \<le> v" "\<forall>i. 0 \<le> i \<and> i < n \<longrightarrow> \<not> is_prime (v + T i)"
    "\<forall>u. startValue \<le> u \<and> u < v \<longrightarrow> (\<exists>i. 0 \<le> i \<and> i < n \<and> is_prime (u + T i))"
    using v(2) unfolding leastValidFrom_def validStart_iff by blast+
  ultimately show ?thesis using v(1) v'(1) w(1) by auto
qed

theorem search_least_valid_any_window_witness:
  "validStart 15 5 \<and> next_prime (15 + 100 + 5 * (5 + 1)) < 2 ^ 63 \<and>
   look4StartValue 0 5 3 = Some (Inr 15) \<and> look4StartValue 0 5 100 = Some (Inr 15) \<and>
   main2 5 4 = Some (Inr 15)"
proof -
  have valid: "validStart 15 5" by code_simp
  have fits: "next_prime (15 + 3 + 5 * (5 + 1)) < 2 ^ 63"
    "next_prime (15 + 100 + 5 * (5 + 1)) < 2 ^ 63"
    "next_prime (15 + 4 + 5 * (5 + 1)) < 2 ^ 63" by code_simp+
  have "look4StartValue 0 5 3 = Some (Inr 15)" by code_simp
  with search_least_valid_any_window [of 5 0 3 100 4 15, OF _ _ _ _ _ valid _ fits] valid fits(2)
  show ?thesis by auto
qed

text \<open>
  C8 (the code departs from the claim and from its own comment). The claim gives the table
  the length \<open>size + T (n - 1)\<close>, and the comment at \<^verbatim>\<open>upperBoundDiff\<close> says
  \<^verbatim>\<open>n(n-1)/2\<close>, which is what program 1 computes after its \<^verbatim>\<open>n--\<close>. Programs 2 and 3 assign
  \<^verbatim>\<open>n*(n+1)/2\<close> without decrementing \<open>n\<close>: for \<open>n = 2\<close> and a window of 3 cells at offset 0
  \<^verbatim>\<open>upperBoundDiff\<close> is 3, not \<open>T 1 = 1\<close>, and the table has 6 cells, not 4. The cells do
  mark the primes; the two cells too many are never read.
\<close>

theorem table_longer_than_documented:
  "upperBoundDiff 2 = 3 \<and> T (2 - 1) = 1 \<and>
   fillArrayOfPrimes 0 3 (upperBoundDiff 2) = Inr [False, False, True, True, False, True] \<and>
   int (length [False, False, True, True, False, True]) = 3 + T (2 - 1) + 2"
proof -
  have "upperBoundDiff 2 = 3" by code_simp
  moreover have "T (2 - 1) = 1" by (simp add: T_def)
  moreover have "fillArrayOfPrimes 0 3 (upperBoundDiff 2) =
      Inr [False, False, True, True, False, True]"
    by code_simp
  moreover have "int (length [False, False, True, True, False, True]) = 3 + T (2 - 1) + 2"
    by (simp add: T_def)
  ultimately show ?thesis by blast
qed




section \<open>Bounds of the table accesses\<close>

lemma mainLoopStep_in_window:
  assumes "1 \<le> n" and "length primeArray = nat (memSize + n * (n + 1) div 2)"
    and "globalOffset \<le> u" and "u < globalOffset + memSize"
  shows "\<exists>res. isCorrectValue primeArray globalOffset u n = Inr res \<and>
           mainLoopStep primeArray n memSize globalOffset numThreads (Testing u) b =
             Inr (if res \<or> (b \<noteq> 0 \<and> b < u) then AtLock u else Testing (u + numThreads), b)"
proof -
  from isCorrectValue_inbounds [OF assms(1,3,4,2)]
  obtain res where "isCorrectValue primeArray globalOffset u n = Inr res" by blast
  with assms(4) show ?thesis by simp
qed

lemma mainLoopStep_past_window:
  "globalOffset + memSize \<le> u \<Longrightarrow>
   mainLoopStep primeArray n memSize globalOffset numThreads (Testing u) b =
     Inr (Returned (- 1), b)"
  by simp

lemma mainLoopStep_inbounds:
  assumes "1 \<le> n" and "0 \<le> numThreads"
    and "length primeArray = nat (memSize + n * (n + 1) div 2)"
    and "inWindow globalOffset w"
  shows "\<exists>w' b'. mainLoopStep primeArray n memSize globalOffset numThreads w b = Inr (w', b') \<and>
           inWindow globalOffset w'"
proof (cases w)
  case (Testing v)
  show ?thesis
  proof (cases "v < memSize + globalOffset")
    case False
    with Testing show ?thesis by simp
  next
    case True
    with assms Testing have "\<exists>res. isCorrectValue primeArray globalOffset v n = Inr res"
      by (intro isCorrectValue_inbounds [where memSize = memSize]) auto
    then obtain res where "isCorrectValue primeArray globalOffset v n = Inr res" by blast
    with True Testing assms(2,4) show ?thesis by auto
  qed
next
  case (AtLock v)
  then show ?thesis by simp
next
  case (Returned r)
  then show ?thesis by simp
qed

lemma runSchedule_inbounds:
  assumes "1 \<le> n" and "0 \<le> numThreads"
    and "length primeArray = nat (memSize + n * (n + 1) div 2)"
  shows "list_all (inWindow globalOffset) ws \<Longrightarrow>
     \<exists>ws' b'. runSchedule (mainLoopStep primeArray n memSize globalOffset numThreads)
        schedule ws b = Inr (ws', b') \<and> list_all (inWindow globalOffset) ws'"
proof (induction schedule arbitrary: ws b)
  case Nil
  then show ?case by simp
next
  case (Cons t ts)
  show ?case
  proof (cases "t < length ws")
    case False
    with Cons.IH [OF Cons.prems] show ?thesis by simp
  next
    case True
    with Cons.prems have "inWindow globalOffset (ws ! t)" by (simp add: list_all_length)
    from mainLoopStep_inbounds [OF assms this]
    obtain w' b' where st: "mainLoopStep primeArray n memSize globalOffset numThreads (ws ! t) b =
        Inr (w', b')" "inWindow globalOffset w'" by blast
    have "list_all (inWindow globalOffset) (ws[t := w'])"
      using Cons.prems st(2) True by (auto simp: list_all_length nth_list_update)
    from Cons.IH [OF this] st(1) True show ?thesis by simp
  qed
qed

lemma spawn_inWindow: "list_all (inWindow globalOffset) (spawn numThreads globalOffset)"
  by (simp add: spawn_def list_all_iff)

lemma term_index_in_table:
  assumes "1 \<le> n" and "offset \<le> v" and "v < offset + memSize" and "0 \<le> i" and "i \<le> n - 1"
  shows "0 \<le> v - offset + T i \<and> v - offset + T i < memSize + n * (n + 1) div 2"
proof -
  have "0 \<le> T i" using assms(4) by (rule T_nonneg)
  moreover have "T i \<le> T n" using assms by (intro T_mono_step) auto
  ultimately show ?thesis using assms(2,3) by (simp add: T_eq)
qed

text \<open>
  C10 as the spec has it speaks of every \<open>n \<ge> 1\<close>. For \<open>n = 3037000500\<close> the product
  \<^verbatim>\<open>n*(n+1)\<close> wraps and \<^verbatim>\<open>upperBoundDiff\<close> is negative; with
  \<^verbatim>\<open>memSize = 4611686016836150568\<close> the table allocated at offset 0 has 10 cells, and
  testing the value 8 of the window reads out of bounds.
\<close>

theorem table_overflow_counterexample:
  "upperBoundDiff 3037000500 = - 4611686016836150558 \<and>
   fillArrayOfPrimes 0 4611686016836150568 (upperBoundDiff 3037000500) =
     Inr [False, False, True, True, False, True, False, True, False, False] \<and>
   isCorrectValue [False, False, True, True, False, True, False, True, False, False]
     0 8 3037000500 = Inl OutOfBounds"
proof -
  have "upperBoundDiff 3037000500 = - 4611686016836150558" by code_simp
  moreover have "fillArrayOfPrimes 0 4611686016836150568 (upperBoundDiff 3037000500) =
      Inr [False, False, True, True, False, True, False, True, False, False]"
    by code_simp
  moreover have "isCorrectValue [False, False, True, True, False, True, False, True, False, False]
      0 8 3037000500 = Inl OutOfBounds"
    by code_simp
  ultimately show ?thesis by blast
qed

text \<open>
  C10, amended. Let \<open>n \<ge> 1\<close>, \<open>offset \<ge> 0\<close>, \<open>offset \<le> value < offset + memSize\<close>, everything in the
  range of \<^verbatim>\<open>int_fast64_t\<close> (the first prime at or after \<open>offset + memSize + n (n + 1)\<close> is
  below \<open>2 ^ 63\<close>, so that \<^verbatim>\<open>n*(n+1)\<close> does not wrap, and so is
  \<open>offset + memSize + numThreads\<close>), and let the table have the allocated length
  \<open>memSize + n (n + 1) / 2\<close>. Then every index \<open>(value - offset) + T i\<close>, \<open>0 \<le> i \<le> n - 1\<close>,
  lies in the table, so \<^verbatim>\<open>isCorrectValue\<close> never reads out of bounds, whatever the table
  holds; \<^verbatim>\<open>fillArrayOfPrimes\<close> builds a table of that length without writing out of
  bounds; the threads of the multi-threaded program, started at \<^verbatim>\<open>globalOffset + i\<close> and
  stepping by \<^verbatim>\<open>numThreads \<ge> 1\<close>, never read out of bounds under any schedule and never
  hold a value before the window; and the loop guard
  \<^verbatim>\<open>*startValue < memSize + globalOffset\<close> keeps every tested value in the window: a
  thread tests its value exactly when it lies in the window, and with a value at or past
  the window's end it returns \<open>-1\<close> without touching the table (the step is the same on
  an empty table).
\<close>

theorem forward_accesses_in_bounds:
  assumes "1 \<le> n" and "0 \<le> offset" and "offset \<le> v" and "v < offset + memSize"
    and "next_prime (offset + memSize + n * (n + 1)) < 2 ^ 63"
    and "length primeArray = nat (memSize + n * (n + 1) div 2)"
    and "1 \<le> numThreads" and "offset + memSize + numThreads < 2 ^ 63"
  shows "(\<forall>i. 0 \<le> i \<and> i \<le> n - 1 \<longrightarrow>
            0 \<le> v - offset + T i \<and> v - offset + T i < int (length primeArray)) \<and>
         (\<exists>res. isCorrectValue primeArray offset v n = Inr res) \<and>
         (\<exists>a. fillArrayOfPrimes offset memSize (upperBoundDiff n) = Inr a \<and>
              length a = nat (memSize + n * (n + 1) div 2)) \<and>
         (\<forall>schedule bestValue.
            \<exists>workers b. runWindow n memSize numThreads offset bestValue schedule = Inr (workers, b) \<and>
              list_all (inWindow offset) workers) \<and>
         (\<forall>u b. offset \<le> u \<and> u < offset + memSize \<longrightarrow>
            (\<exists>res. isCorrectValue primeArray offset u n = Inr res \<and>
               mainLoopStep primeArray n memSize offset numThreads (Testing u) b =
                 Inr (if res \<or> (b \<noteq> 0 \<and> b < u) then AtLock u else Testing (u + numThreads), b))) \<and>
         (\<forall>u b. offset + memSize \<le> u \<longrightarrow>
            mainLoopStep [] n memSize offset numThreads (Testing u) b = Inr (Returned (- 1), b))"
proof -
  have x: "0 \<le> offset + memSize" using assms(2-4) by simp
  note facts = in_range_facts [OF assms(1) x assms(5)]
  have ubd: "upperBoundDiff n = n * (n + 1) div 2"
    using upperBoundDiff_T [OF _ facts(1)] assms(1) by (simp add: T_eq)
  have size0: "0 \<le> memSize + upperBoundDiff n"
    using assms(1,3,4) T_nonneg [of n] by (simp add: ubd T_eq)
  from fillArrayOfPrimes_spec [OF size0, of offset]
  obtain a where a: "fillArrayOfPrimes offset memSize (upperBoundDiff n) = Inr a"
    "length a = nat (memSize + n * (n + 1) div 2)"
    by (auto simp: ubd)
  have c1: "\<forall>i. 0 \<le> i \<and> i \<le> n - 1 \<longrightarrow>
      0 \<le> v - offset + T i \<and> v - offset + T i < int (length primeArray)"
  proof (intro allI impI)
    fix i assume "0 \<le> i \<and> i \<le> n - 1"
    with term_index_in_table [OF assms(1,3,4), of i] assms(6)
    show "0 \<le> v - offset + T i \<and> v - offset + T i < int (length primeArray)" by auto
  qed
  have c2: "\<exists>res. isCorrectValue primeArray offset v n = Inr res"
    using assms(1,3,4,6) by (rule isCorrectValue_inbounds)
  have c3: "\<exists>a. fillArrayOfPrimes offset memSize (upperBoundDiff n) = Inr a \<and>
      length a = nat (memSize + n * (n + 1) div 2)"
    using a by blast
  have c4: "\<forall>schedule bestValue.
      \<exists>workers b. runWindow n memSize numThreads offset bestValue schedule = Inr (workers, b) \<and>
        list_all (inWindow offset) workers"
  proof (intro allI)
    fix schedule bestValue
    have nt: "0 \<le> numThreads" using assms(7) by simp
    have "\<exists>ws' b'. runSchedule (mainLoopStep a n memSize offset numThreads) schedule
        (spawn numThreads offset) bestValue = Inr (ws', b') \<and> list_all (inWindow offset) ws'"
      by (rule runSchedule_inbounds [OF assms(1) nt a(2) spawn_inWindow])
    then show "\<exists>workers b. runWindow n memSize numThreads offset bestValue schedule =
        Inr (workers, b) \<and> list_all (inWindow offset) workers"
      by (simp add: runWindow_def a(1))
  qed
  have c5: "\<forall>u b. offset \<le> u \<and> u < offset + memSize \<longrightarrow>
      (\<exists>res. isCorrectValue primeArray offset u n = Inr res \<and>
         mainLoopStep primeArray n memSize offset numThreads (Testing u) b =
           Inr (if res \<or> (b \<noteq> 0 \<and> b < u) then AtLock u else Testing (u + numThreads), b))"
    using mainLoopStep_in_window [OF assms(1,6)] by blast
  have c6: "\<forall>u b. offset + memSize \<le> u \<longrightarrow>
      mainLoopStep [] n memSize offset numThreads (Testing u) b = Inr (Returned (- 1), b)"
    using mainLoopStep_past_window by blast
  from c1 c2 c3 c4 c5 c6 show ?thesis by blast
qed

theorem forward_accesses_in_bounds_witness:
  "next_prime (10 + 3 + 2 * (2 + 1)) < 2 ^ 63 \<and>
   (\<exists>res. isCorrectValue (replicate 6 True) 10 12 2 = Inr res) \<and>
   (\<exists>workers b. runWindow 2 3 2 10 0 [0, 1, 1, 0, 0] = Inr (workers, b) \<and>
      list_all (inWindow 10) workers) \<and>
   mainLoopStep [] 2 3 10 2 (Testing 13) 0 = Inr (Returned (- 1), 0)"
proof -
  have fits: "next_prime (10 + 3 + 2 * (2 + 1)) < 2 ^ 63" by code_simp
  have len: "length (replicate 6 True) = nat (3 + 2 * (2 + 1) div 2)" by simp
  from forward_accesses_in_bounds [of 2 10 12 3 "replicate 6 True" 2, OF _ _ _ _ fits len]
  have "(\<exists>res. isCorrectValue (replicate 6 True) 10 12 2 = Inr res) \<and>
      (\<forall>schedule bestValue.
         \<exists>workers b. runWindow 2 3 2 10 bestValue schedule = Inr (workers, b) \<and>
           list_all (inWindow 10) workers) \<and>
      (\<forall>u b. 10 + 3 \<le> u \<longrightarrow>
         mainLoopStep [] 2 3 10 2 (Testing u) b = Inr (Returned (- 1), b))"
    by simp
  then have "\<exists>res. isCorrectValue (replicate 6 True) 10 12 2 = Inr res"
    and "\<exists>workers b. runWindow 2 3 2 10 0 [0, 1, 1, 0, 0] = Inr (workers, b) \<and>
       list_all (inWindow 10) workers"
    and "(10::int) + 3 \<le> 13 \<longrightarrow>
       mainLoopStep [] 2 3 10 2 (Testing 13) 0 = Inr (Returned (- 1), 0)"
    by blast+
  with fits show ?thesis by simp
qed

section \<open>What the verifier gets right\<close>

lemma skipPrimes_spec:
  "it \<le> v \<Longrightarrow> skipPrimes it v = (next_prime v, next_prime v + 1)"
proof (induction "nat (v - it)" arbitrary: it rule: less_induct)
  case less
  define p where "p = next_prime it"
  have nx: "primesieve_next_prime it = (p, p + 1)"
    by (simp add: primesieve_next_prime_def p_def Let_def)
  have ge: "it \<le> p" unfolding p_def by (rule next_prime_ge)
  have pr: "is_prime p" unfolding p_def by (rule next_prime_prime)
  show ?case
  proof (cases "p < v")
    case True
    then have "skipPrimes it v = skipPrimes (p + 1) v"
      by (subst skipPrimes.simps) (simp add: nx)
    moreover have "skipPrimes (p + 1) v = (next_prime v, next_prime v + 1)"
      using True ge by (intro less.hyps) auto
    ultimately show ?thesis by simp
  next
    case False
    then have r: "skipPrimes it v = (p, p + 1)"
      by (subst skipPrimes.simps) (simp add: nx)
    have "next_prime v \<le> p" using pr False by (intro next_prime_least) auto
    moreover have "p \<le> next_prime v"
      unfolding p_def using next_prime_prime [of v] next_prime_ge [of v] less.prems
      by (intro next_prime_least) auto
    ultimately show ?thesis using r by simp
  qed
qed

lemma addTerms_spec:
  "1 \<le> k \<Longrightarrow> k < n \<Longrightarrow>
   \<exists>k'. addTerms (A + T (k - 1)) k n q = (A + T (k' - 1), k') \<and> k < k' \<and> k' \<le> n \<and>
        (k' < n \<longrightarrow> q \<le> A + T (k' - 1))"
proof (induction "nat (n - k)" arbitrary: k rule: less_induct)
  case less
  have v1: "A + T (k - 1) + k = A + T (k + 1 - 1)" using T_pred [of k] by simp
  show ?case
  proof (cases "A + T (k + 1 - 1) < q \<and> k + 1 < n")
    case True
    then have "addTerms (A + T (k - 1)) k n q = addTerms (A + T (k + 1 - 1)) (k + 1) n q"
      by (subst addTerms.simps) (simp add: Let_def v1 del: add_diff_cancel_right')
    moreover from True less.prems
    have "\<exists>k'. addTerms (A + T (k + 1 - 1)) (k + 1) n q = (A + T (k' - 1), k') \<and> k + 1 < k' \<and>
        k' \<le> n \<and> (k' < n \<longrightarrow> q \<le> A + T (k' - 1))"
      by (intro less.hyps) auto
    ultimately show ?thesis by auto
  next
    case False
    then have "addTerms (A + T (k - 1)) k n q = (A + T (k + 1 - 1), k + 1)"
      by (subst addTerms.simps) (auto simp: Let_def v1 simp del: add_diff_cancel_right')
    with False less.prems show ?thesis
      by (intro exI [of _ "k + 1"]) auto
  qed
qed

lemma checkLoop_accepts_valid:
  assumes "validStart A n"
  shows "1 \<le> k \<Longrightarrow> k < n \<Longrightarrow> it \<le> A + T (k - 1) \<Longrightarrow>
     fst (checkLoop it (A + T (k - 1)) k n) = 0"
proof (induction "nat (n - k)" arbitrary: k it rule: less_induct)
  case less
  have np: "\<not> is_prime (A + T (j - 1))" if "1 \<le> j" "j \<le> n" for j
    using assms that unfolding validStart_iff by auto
  define q where "q = next_prime (A + T (k - 1))"
  have sk: "skipPrimes it (A + T (k - 1)) = (q, q + 1)"
    unfolding q_def using less.prems(3) by (rule skipPrimes_spec)
  have pq: "is_prime q" unfolding q_def by (rule next_prime_prime)
  have ne: "q \<noteq> A + T (k - 1)" using np [of k] pq less.prems by auto
  from addTerms_spec [OF less.prems(1,2), of A q]
  obtain k' where k': "addTerms (A + T (k - 1)) k n q = (A + T (k' - 1), k')" "k < k'" "k' \<le> n"
    "k' < n \<longrightarrow> q \<le> A + T (k' - 1)" by blast
  have ne': "q \<noteq> A + T (k' - 1)" using np [of k'] pq k'(2,3) less.prems(1) by auto
  show ?case
  proof (cases "k' < n")
    case True
    with sk ne k'(1) ne' have "checkLoop it (A + T (k - 1)) k n =
        checkLoop (q + 1) (A + T (k' - 1)) k' n"
      by (subst checkLoop.simps) simp
    moreover have "fst (checkLoop (q + 1) (A + T (k' - 1)) k' n) = 0"
      using True k'(2,4) ne' less.prems(1) by (intro less.hyps) auto
    ultimately show ?thesis by simp
  next
    case False
    with sk ne k'(1) ne' have "checkLoop it (A + T (k - 1)) k n = (0, k')"
      by (subst checkLoop.simps) simp
    then show ?thesis by simp
  qed
qed

text \<open>For \<open>n \<ge> 2\<close> the verifier accepts every valid start value; the converse fails, and so
  does the statement for \<open>n = 1\<close> (claims C4 and C5 below).\<close>

lemma CheckSequence_accepts_valid:
  assumes "2 \<le> n" and "validStart A n"
  shows "fst (CheckSequence A n) = 0"
proof -
  have "fst (checkLoop A (A + T (1 - 1)) 1 n) = 0"
    using assms(1) by (intro checkLoop_accepts_valid [OF assms(2)]) auto
  then show ?thesis by (simp add: CheckSequence_def primesieve_jump_to_def)
qed

section \<open>Where the programs break the spec\<close>

text \<open>
  C4 (the code departs from the claim and from its own comment). \<^verbatim>\<open>CheckSequence (25, 4)\<close>
  returns 0 although the term of index 3, \<open>25 + T 3 = 31\<close>, is prime: the last term is
  added after the prime 29 was fetched, overshoots it, and the loop ends on
  \<^verbatim>\<open>*iterationNbr < n\<close> without comparing it with a later prime. And
  \<^verbatim>\<open>CheckSequence (1, 1)\<close> returns 2 with the counter at 2: for \<open>n = 1\<close> the term of index
  1 is added before \<^verbatim>\<open>*iterationNbr >= n\<close> is looked at, so a prime outside the terms
  \<open>0 .. n - 1\<close> is reported for the valid start value 1.
\<close>

theorem CheckSequence_wrong_verdicts:
  "CheckSequence 25 4 = (0, 4) \<and> is_prime (25 + T 3) \<and>
   CheckSequence 1 1 = (2, 2) \<and> validStart 1 1"
proof -
  have "CheckSequence 25 4 = (0, 4)" by code_simp
  moreover have "is_prime (25 + T 3)" by (simp add: T_def prime_eval)
  moreover have "CheckSequence 1 1 = (2, 2)" by code_simp
  moreover have "validStart 1 1" by code_simp
  ultimately show ?thesis by blast
qed

text \<open>
  C5 (the code departs from the claim). Program 1 started with \<^verbatim>\<open>-s 1\<close> for \<open>n = 1\<close>
  reports the start value 1, which is valid, and its verifier answers 2, not 0.
\<close>

theorem verifier_rejects_engine_answer:
  "look4StartValue 1 1 10 = Some (Inr 1) \<and> validStart 1 1 \<and> fst (CheckSequence 1 1) = 2"
proof -
  have "look4StartValue 1 1 10 = Some (Inr 1)" by code_simp
  moreover have "validStart 1 1" by code_simp
  moreover have "fst (CheckSequence 1 1) = 2" by code_simp
  ultimately show ?thesis by blast
qed

text \<open>
  C3 (the code departs from the claim). \<^verbatim>\<open>bestValue = 0\<close> stands for ``no value yet'',
  but 0 is a valid start value for \<open>n = 2\<close>. With one thread on the window \<open>[0, 10)\<close> the
  thread finds 0, \<^verbatim>\<open>bestValue\<close> stays 0, the window counts as exhausted and the program
  reports 14 from the next window. With two threads it reports 9 when thread 0 takes the
  lock first, and goes on to the next window when thread 1 does. With three threads
  on \<open>[0, 20)\<close> there is a schedule that ends with \<^verbatim>\<open>bestValue = 10\<close>, which is not valid:
  thread 1 leaves its loop at 10 because 8 was found, thread 0 then stores 0, and thread 1
  takes 0 for ``no value'' and stores its 10.
\<close>

theorem coordinator_depends_on_threads:
  "mainMT 2 10 1 0 0 [replicate 2 0, replicate 6 0] = Some (Inr 14) \<and>
   mainMT 2 10 2 0 0 [replicate 2 0 @ replicate 6 1] = Some (Inr 9) \<and>
   runWindow 2 10 2 0 0 (replicate 6 1 @ replicate 2 0) = Inr ([Returned 0, Returned 9], 0) \<and>
   mainMT 2 20 3 0 0 [[2, 2, 2, 2, 1, 1, 1, 1, 0, 0, 1]] = Some (Inr 10) \<and>
   validStart 0 2 \<and> validStart 8 2 \<and> is_prime (10 + T 1)"
proof -
  have "mainMT 2 10 1 0 0 [replicate 2 0, replicate 6 0] = Some (Inr 14)" by code_simp
  moreover have "mainMT 2 10 2 0 0 [replicate 2 0 @ replicate 6 1] = Some (Inr 9)" by code_simp
  moreover have "runWindow 2 10 2 0 0 (replicate 6 1 @ replicate 2 0) =
      Inr ([Returned 0, Returned 9], 0)" by code_simp
  moreover have "mainMT 2 20 3 0 0 [[2, 2, 2, 2, 1, 1, 1, 1, 0, 0, 1]] = Some (Inr 10)"
    by code_simp
  moreover have "validStart 0 2" "validStart 8 2" by code_simp+
  moreover have "is_prime (10 + T 1)" by (simp add: T_def prime_eval)
  ultimately show ?thesis by blast
qed

end
